theory Spec2Isabelle
  imports Main "HOL-Library.Sublist"
begin

section \<open>Characters and strings of the C library\<close>

text \<open>
  \<open>std::string\<close> is a sequence of bytes; it is modelled as \<open>string\<close> (a list of 8-bit
  \<open>char\<close>). The character classes of \<open><cctype>\<close> are those of the "C" locale: letters
  are \<open>A..Z\<close> and \<open>a..z\<close>, digits \<open>0..9\<close>, white space is space, \<open>\t \n \v \f \r\<close>;
  bytes from 128 on belong to no class and \<open>tolower\<close> leaves them alone.
\<close>

definition isupper :: "char \<Rightarrow> bool" where
  "isupper c = (65 \<le> (of_char c :: nat) \<and> (of_char c :: nat) \<le> 90)"

definition islower :: "char \<Rightarrow> bool" where
  "islower c = (97 \<le> (of_char c :: nat) \<and> (of_char c :: nat) \<le> 122)"

definition isdigit :: "char \<Rightarrow> bool" where
  "isdigit c = (48 \<le> (of_char c :: nat) \<and> (of_char c :: nat) \<le> 57)"

definition isalpha :: "char \<Rightarrow> bool" where
  "isalpha c = (isupper c \<or> islower c)"

definition isalnum :: "char \<Rightarrow> bool" where
  "isalnum c = (isalpha c \<or> isdigit c)"

definition isspace :: "char \<Rightarrow> bool" where
  "isspace c = ((of_char c :: nat) = 32 \<or> (9 \<le> (of_char c :: nat) \<and> (of_char c :: nat) \<le> 13))"

definition tolower :: "char \<Rightarrow> char" where
  "tolower c = (if isupper c then char_of ((of_char c :: nat) + 32) else c)"

text \<open>\<open>std::transform(lower.begin(), lower.end(), lower.begin(), ::tolower)\<close>.\<close>

definition to_lower :: "string \<Rightarrow> string" where
  "to_lower s = map tolower s"

text \<open>
  \<open>haystack.find(needle)\<close> of \<open>std::string\<close>: the lowest position at which \<open>needle\<close>
  occurs in \<open>haystack\<close>, \<open>None\<close> for \<open>npos\<close>. The empty needle occurs at position 0 of
  every haystack, the empty one included.
\<close>

fun string_find :: "string \<Rightarrow> string \<Rightarrow> nat option" where
  "string_find [] needle = (if needle = [] then Some 0 else None)"
| "string_find (c # hay) needle =
     (if take (length needle) (c # hay) = needle then Some 0
      else map_option Suc (string_find hay needle))"

section \<open>Errors\<close>

text \<open>
  Every failure of the engine is a \<open>std::runtime_error\<close>; the constructors below are its
  throw sites, with the part of the message that varies. \<open>NullChild\<close> stands for the
  dereference of an absent right child of a logical node (the parser never builds one),
  \<open>PredicateFailure\<close> for whatever a registered predicate throws.
\<close>

datatype error =
    UnexpectedCharacter char
  | UnexpectedToken string
  | TokenTypeMismatch
  | NotABooleanNode
  | NotAStringNode
  | VariableNotFound string
  | FunctionNotFound string
  | ContainsArity
  | ContainsAnyArity
  | NullChild
  | PredicateFailure string

section \<open>Lexer\<close>

datatype SreTokenType =
  TIdentifier | TStringLiteral | TComma | TLParen | TRParen | TAnd | TOr | TNot | TEnd

record SreToken =
  tok_type :: SreTokenType
  tok_text :: string

text \<open>
  The lexer owns the input and a position \<open>pos_\<close> that only grows. Its state is modelled
  by the unread rest of the input, \<open>drop pos_ input_\<close>: \<open>pos_ >= input_.size()\<close> is the
  empty rest and \<open>pos_++\<close> is \<open>drop 1\<close>, which keeps the rest empty when \<open>pos_\<close> runs
  past the end.
\<close>

type_synonym SreLexer = string

definition skipWhitespace :: "SreLexer \<Rightarrow> SreLexer" where
  "skipWhitespace inp = dropWhile isspace inp"

definition isIdentChar :: "char \<Rightarrow> bool" where
  "isIdentChar c = (isalnum c \<or> c = CHR ''#'' \<or> c = CHR ''{'' \<or> c = CHR ''}'')"

definition isIdentStart :: "char \<Rightarrow> bool" where
  "isIdentStart c = (isalpha c \<or> c = CHR ''#'' \<or> c = CHR ''{'' \<or> c = CHR ''}'')"

definition nextToken :: "SreLexer \<Rightarrow> error + (SreToken \<times> SreLexer)" where
  "nextToken inp =
     (case skipWhitespace inp of
        [] \<Rightarrow> Inr (\<lparr>tok_type = TEnd, tok_text = []\<rparr>, [])
      | c # cs \<Rightarrow>
          if isIdentStart c then
            (let s = takeWhile isIdentChar (c # cs);
                 rest = dropWhile isIdentChar (c # cs);
                 lower = to_lower s
             in if lower = ''and'' then Inr (\<lparr>tok_type = TAnd, tok_text = s\<rparr>, rest)
                else if lower = ''or'' then Inr (\<lparr>tok_type = TOr, tok_text = s\<rparr>, rest)
                else if lower = ''not'' then Inr (\<lparr>tok_type = TNot, tok_text = s\<rparr>, rest)
                else Inr (\<lparr>tok_type = TIdentifier, tok_text = s\<rparr>, rest))
          else if c = CHR 0x27 then
            (let s = takeWhile (\<lambda>x. x \<noteq> CHR 0x27) cs;
                 rest = drop 1 (dropWhile (\<lambda>x. x \<noteq> CHR 0x27) cs)
             in Inr (\<lparr>tok_type = TStringLiteral, tok_text = s\<rparr>, rest))
          else if c = CHR '','' then Inr (\<lparr>tok_type = TComma, tok_text = '',''\<rparr>, cs)
          else if c = CHR ''('' then Inr (\<lparr>tok_type = TLParen, tok_text = ''(''\<rparr>, cs)
          else if c = CHR '')'' then Inr (\<lparr>tok_type = TRParen, tok_text = '')''\<rparr>, cs)
          else Inl (UnexpectedCharacter c))"

section \<open>Abstract syntax and evaluation\<close>

datatype Operator = OpAnd | OpOr | OpNot

text \<open>
  The three node classes. A logical node holds its operator, the left child and the
  right child, which is absent (\<open>nullptr\<close>) for \<open>not\<close>.
\<close>

datatype SreASTNode =
    SreLogicalNode Operator SreASTNode "SreASTNode option"
  | SreValueNode string bool
  | SreFunctionNode string "SreASTNode list"

type_synonym SreContext = "string \<rightharpoonup> string"

type_synonym SreFunction = "string list \<Rightarrow> error + bool"

type_synonym SreFunctions = "string \<rightharpoonup> SreFunction"

fun evalString :: "SreContext \<Rightarrow> SreFunctions \<Rightarrow> SreASTNode \<Rightarrow> error + string" where
  "evalString ctx functions (SreValueNode val isVariable) =
     (if isVariable then
        (case ctx val of None \<Rightarrow> Inl (VariableNotFound val) | Some v \<Rightarrow> Inr v)
      else Inr val)"
| "evalString ctx functions (SreLogicalNode op l r) = Inl NotAStringNode"
| "evalString ctx functions (SreFunctionNode name args) = Inl NotAStringNode"

text \<open>The argument loop of a call: each argument in turn, stopping at the first throw.\<close>

fun evalArgs ::
  "SreContext \<Rightarrow> SreFunctions \<Rightarrow> SreASTNode list \<Rightarrow> string list \<Rightarrow> error + string list" where
  "evalArgs ctx functions [] evaluatedArgs = Inr evaluatedArgs"
| "evalArgs ctx functions (arg # args) evaluatedArgs =
     (case evalString ctx functions arg of
        Inl e \<Rightarrow> Inl e
      | Inr s \<Rightarrow> evalArgs ctx functions args (evaluatedArgs @ [s]))"

fun evalBool :: "SreContext \<Rightarrow> SreFunctions \<Rightarrow> SreASTNode \<Rightarrow> error + bool" where
  "evalBool ctx functions (SreLogicalNode OpAnd l r) =
     (case evalBool ctx functions l of
        Inl e \<Rightarrow> Inl e
      | Inr lv \<Rightarrow>
          if lv then
            (case r of None \<Rightarrow> Inl NullChild | Some r' \<Rightarrow> evalBool ctx functions r')
          else Inr False)"
| "evalBool ctx functions (SreLogicalNode OpOr l r) =
     (case evalBool ctx functions l of
        Inl e \<Rightarrow> Inl e
      | Inr lv \<Rightarrow>
          if lv then Inr True
          else (case r of None \<Rightarrow> Inl NullChild | Some r' \<Rightarrow> evalBool ctx functions r'))"
| "evalBool ctx functions (SreLogicalNode OpNot l r) =
     (case evalBool ctx functions l of
        Inl e \<Rightarrow> Inl e
      | Inr lv \<Rightarrow> Inr (\<not> lv))"
| "evalBool ctx functions (SreValueNode val isVariable) =
     (case evalString ctx functions (SreValueNode val isVariable) of
        Inl e \<Rightarrow> Inl e
      | Inr s \<Rightarrow> Inr (s \<noteq> []))"
| "evalBool ctx functions (SreFunctionNode name args) =
     (case evalArgs ctx functions args [] of
        Inl e \<Rightarrow> Inl e
      | Inr evaluatedArgs \<Rightarrow>
          (case functions (to_lower name) of
             None \<Rightarrow> Inl (FunctionNotFound name)
           | Some f \<Rightarrow> f evaluatedArgs))"

section \<open>Parser\<close>

text \<open>Member names lose the trailing underscore of the source (\<open>lexer_\<close>, \<open>currentToken_\<close>).\<close>

record SreParser =
  lexer :: SreLexer
  currentToken :: SreToken

text \<open>The constructor reads the first token.\<close>

definition SreParser_new :: "SreLexer \<Rightarrow> error + SreParser" where
  "SreParser_new lx =
     (case nextToken lx of
        Inl e \<Rightarrow> Inl e
      | Inr (t, lx') \<Rightarrow> Inr \<lparr>lexer = lx', currentToken = t\<rparr>)"

definition consume :: "SreTokenType \<Rightarrow> SreParser \<Rightarrow> error + SreParser" where
  "consume ty p =
     (if tok_type (currentToken p) \<noteq> ty then Inl TokenTypeMismatch
      else (case nextToken (lexer p) of
              Inl e \<Rightarrow> Inl e
            | Inr (t, lx') \<Rightarrow> Inr \<lparr>lexer = lx', currentToken = t\<rparr>))"

text \<open>
  \<open>std::remove\<close> and \<open>erase\<close> of the characters \<open>#\<close>, \<open>{\<close> and \<open>}\<close>, one after the other.
\<close>

definition stripVarName :: "string \<Rightarrow> string" where
  "stripVarName name =
     filter (\<lambda>c. c \<noteq> CHR ''}'') (filter (\<lambda>c. c \<noteq> CHR ''{'') (filter (\<lambda>c. c \<noteq> CHR ''#'') name))"

text \<open>
  Size of what is left to parse: the unread input, and the current token unless it is
  \<open>End\<close>. Every successful \<open>consume\<close> of the parser lowers it.
\<close>

definition remaining :: "SreParser \<Rightarrow> nat" where
  "remaining p = length (lexer p) + (if tok_type (currentToken p) = TEnd then 0 else 1)"

text \<open>
  The recursive-descent functions. The three \<open>while\<close> loops are the functions \<open>orLoop\<close>,
  \<open>andLoop\<close> and \<open>argsLoop\<close>, which carry the loop variable (\<open>node\<close>, \<open>args\<close>).
\<close>

function
  parseExpression :: "SreParser \<Rightarrow> error + (SreASTNode \<times> SreParser)" and
  parseOr :: "SreParser \<Rightarrow> error + (SreASTNode \<times> SreParser)" and
  orLoop :: "SreASTNode \<Rightarrow> SreParser \<Rightarrow> error + (SreASTNode \<times> SreParser)" and
  parseAnd :: "SreParser \<Rightarrow> error + (SreASTNode \<times> SreParser)" and
  andLoop :: "SreASTNode \<Rightarrow> SreParser \<Rightarrow> error + (SreASTNode \<times> SreParser)" and
  parseNot :: "SreParser \<Rightarrow> error + (SreASTNode \<times> SreParser)" and
  parsePrimary :: "SreParser \<Rightarrow> error + (SreASTNode \<times> SreParser)" and
  argsLoop :: "SreASTNode list \<Rightarrow> SreParser \<Rightarrow> error + (SreASTNode list \<times> SreParser)"
where
  "parseExpression p = parseOr p"
| "parseOr p =
     (case parseAnd p of
        Inl e \<Rightarrow> Inl e
      | Inr (node, p1) \<Rightarrow> orLoop node p1)"
| "orLoop node p =
     (if tok_type (currentToken p) = TOr then
        (case consume TOr p of
           Inl e \<Rightarrow> Inl e
         | Inr p1 \<Rightarrow>
             (case parseAnd p1 of
                Inl e \<Rightarrow> Inl e
              | Inr (right, p2) \<Rightarrow> orLoop (SreLogicalNode OpOr node (Some right)) p2))
      else Inr (node, p))"
| "parseAnd p =
     (case parseNot p of
        Inl e \<Rightarrow> Inl e
      | Inr (node, p1) \<Rightarrow> andLoop node p1)"
| "andLoop node p =
     (if tok_type (currentToken p) = TAnd then
        (case consume TAnd p of
           Inl e \<Rightarrow> Inl e
         | Inr p1 \<Rightarrow>
             (case parseNot p1 of
                Inl e \<Rightarrow> Inl e
              | Inr (right, p2) \<Rightarrow> andLoop (SreLogicalNode OpAnd node (Some right)) p2))
      else Inr (node, p))"
| "parseNot p =
     (if tok_type (currentToken p) = TNot then
        (case consume TNot p of
           Inl e \<Rightarrow> Inl e
         | Inr p1 \<Rightarrow>
             (case parsePrimary p1 of
                Inl e \<Rightarrow> Inl e
              | Inr (operand, p2) \<Rightarrow> Inr (SreLogicalNode OpNot operand None, p2)))
      else parsePrimary p)"
| "parsePrimary p =
     (if tok_type (currentToken p) = TLParen then
        (case consume TLParen p of
           Inl e \<Rightarrow> Inl e
         | Inr p1 \<Rightarrow>
             (case parseExpression p1 of
                Inl e \<Rightarrow> Inl e
              | Inr (node, p2) \<Rightarrow>
                  (case consume TRParen p2 of
                     Inl e \<Rightarrow> Inl e
                   | Inr p3 \<Rightarrow> Inr (node, p3))))
      else if tok_type (currentToken p) = TIdentifier then
        (let name = tok_text (currentToken p) in
         case consume TIdentifier p of
           Inl e \<Rightarrow> Inl e
         | Inr p1 \<Rightarrow>
             if tok_type (currentToken p1) = TLParen then
               (case consume TLParen p1 of
                  Inl e \<Rightarrow> Inl e
                | Inr p2 \<Rightarrow>
                    if tok_type (currentToken p2) \<noteq> TRParen then
                      (case parseExpression p2 of
                         Inl e \<Rightarrow> Inl e
                       | Inr (arg, p3) \<Rightarrow>
                           (case argsLoop [arg] p3 of
                              Inl e \<Rightarrow> Inl e
                            | Inr (args, p4) \<Rightarrow>
                                (case consume TRParen p4 of
                                   Inl e \<Rightarrow> Inl e
                                 | Inr p5 \<Rightarrow> Inr (SreFunctionNode name args, p5))))
                    else
                      (case consume TRParen p2 of
                         Inl e \<Rightarrow> Inl e
                       | Inr p5 \<Rightarrow> Inr (SreFunctionNode name [], p5)))
             else
               (let isVar = (CHR ''#'' \<in> set name);
                    varName = stripVarName name
                in Inr (SreValueNode varName isVar, p1)))
      else if tok_type (currentToken p) = TStringLiteral then
        (let s = tok_text (currentToken p) in
         case consume TStringLiteral p of
           Inl e \<Rightarrow> Inl e
         | Inr p1 \<Rightarrow> Inr (SreValueNode s False, p1))
      else Inl (UnexpectedToken (tok_text (currentToken p))))"
| "argsLoop args p =
     (if tok_type (currentToken p) = TComma then
        (case consume TComma p of
           Inl e \<Rightarrow> Inl e
         | Inr p1 \<Rightarrow>
             (case parseExpression p1 of
                Inl e \<Rightarrow> Inl e
              | Inr (arg, p2) \<Rightarrow> argsLoop (args @ [arg]) p2))
      else Inr (args, p))"
  by pat_completeness auto


section \<open>Engine\<close>

text \<open>The two built-in predicates, the lambdas of \<open>initBuiltInFunctions\<close>.\<close>

definition contains_fn :: SreFunction where
  "contains_fn args =
     (if length args \<noteq> 2 then Inl ContainsArity
      else Inr (string_find (args ! 0) (args ! 1) \<noteq> None))"

fun containsAny_loop :: "string \<Rightarrow> string list \<Rightarrow> bool" where
  "containsAny_loop hay [] = False"
| "containsAny_loop hay (a # as) =
     (if string_find hay a \<noteq> None then True else containsAny_loop hay as)"

definition containsAny_fn :: SreFunction where
  "containsAny_fn args =
     (if length args < 2 then Inl ContainsAnyArity
      else Inr (containsAny_loop (args ! 0) (drop 1 args)))"

text \<open>The member \<open>functions_\<close> is the field \<open>sre_functions\<close>.\<close>

record SreRuleEngine =
  sre_functions :: SreFunctions

definition registerFunction :: "string \<Rightarrow> SreFunction \<Rightarrow> SreRuleEngine \<Rightarrow> SreRuleEngine" where
  "registerFunction name func eng = eng\<lparr>sre_functions := (sre_functions eng)(to_lower name \<mapsto> func)\<rparr>"

definition initBuiltInFunctions :: "SreRuleEngine \<Rightarrow> SreRuleEngine" where
  "initBuiltInFunctions eng =
     registerFunction ''containsany'' containsAny_fn
       (registerFunction ''contains'' contains_fn eng)"

text \<open>The constructor: an empty registry, then the built-ins.\<close>

definition SreRuleEngine_new :: SreRuleEngine where
  "SreRuleEngine_new = initBuiltInFunctions \<lparr>sre_functions = Map.empty\<rparr>"

definition evaluate :: "SreRuleEngine \<Rightarrow> string \<Rightarrow> SreContext \<Rightarrow> error + bool" where
  "evaluate eng expression ctx =
     (case SreParser_new expression of
        Inl e \<Rightarrow> Inl e
      | Inr parser \<Rightarrow>
          (case parseExpression parser of
             Inl e \<Rightarrow> Inl e
           | Inr (root, parser') \<Rightarrow> evalBool ctx (sre_functions eng) root))"

section \<open>Notions of the statements\<close>

text \<open>
  The definitions of this section are not code of the engine: they say what the theorems
  below assume and conclude about its inputs, states and results.
\<close>

text \<open>
  The number of single quotes in a text. When it is even, every string literal that the
  lexer opens in the text is closed in it.
\<close>

definition quotes :: "string \<Rightarrow> nat" where
  "quotes s = length (filter (\<lambda>c. c = CHR 0x27) s)"

text \<open>
  The last character of a text that is not white space is an identifier character.
\<close>

definition endsWithIdentifier :: "string \<Rightarrow> bool" where
  "endsWithIdentifier s =
     (case dropWhile isspace (rev s) of [] \<Rightarrow> False | c # cs \<Rightarrow> isIdentChar c)"

text \<open>
  The parser state that corresponds to \<open>p\<close> when the text \<open>t\<close> is appended to the input: the
  unread input grows by \<open>t\<close>, and a current token \<open>End\<close> becomes the first token of \<open>t\<close>.
\<close>

definition resume :: "string \<Rightarrow> SreParser \<Rightarrow> SreParser" where
  "resume t p =
     (if tok_type (currentToken p) = TEnd then
        (case nextToken t of
           Inl e \<Rightarrow> p
         | Inr (tok, r) \<Rightarrow> \<lparr>lexer = r, currentToken = tok\<rparr>)
      else \<lparr>lexer = lexer p @ t, currentToken = currentToken p\<rparr>)"

text \<open>
  What holds of every state the parser reaches on the input \<open>e\<close>: the unread input is a
  suffix of \<open>e\<close> with its quotes paired, and an identifier that is the last token of \<open>e\<close>
  makes \<open>e\<close> end with an identifier.
\<close>

definition frameInv :: "string \<Rightarrow> SreParser \<Rightarrow> bool" where
  "frameInv e p =
     (even (quotes (lexer p)) \<and> suffix (lexer p) e
      \<and> (tok_type (currentToken p) = TIdentifier \<and> (\<forall>c \<in> set (lexer p). isspace c)
           \<longrightarrow> endsWithIdentifier e))"

text \<open>
  A text \<open>t\<close> may follow \<open>e\<close> without running into its last token: not both an identifier
  character at the end of \<open>e\<close> and one at the start of \<open>t\<close>.
\<close>

definition boundary :: "string \<Rightarrow> string \<Rightarrow> bool" where
  "boundary e t = (e \<noteq> [] \<and> isIdentChar (last e) \<longrightarrow> t = [] \<or> \<not> isIdentChar (hd t))"

text \<open>
  \<open>phrase f s = Some n\<close>: the text \<open>s\<close>, on its own, is a complete phrase of the grammar level
  parsed by \<open>f\<close>, with tree \<open>n\<close>: the parser built on \<open>s\<close> runs \<open>f\<close> to the end of the input,
  and the quotes of \<open>s\<close> are paired.
\<close>

definition phrase ::
  "(SreParser \<Rightarrow> error + (SreASTNode \<times> SreParser)) \<Rightarrow> string \<Rightarrow> SreASTNode option" where
  "phrase f s =
     (case SreParser_new s of
        Inl e \<Rightarrow> None
      | Inr p \<Rightarrow>
          (case f p of
             Inl e \<Rightarrow> None
           | Inr (n, p') \<Rightarrow>
               if tok_type (currentToken p') = TEnd \<and> even (quotes s) then Some n else None))"

text \<open>
  An error up to the casing of the token or function name its message quotes.
\<close>

fun normError :: "error \<Rightarrow> error" where
  "normError (UnexpectedToken s) = UnexpectedToken (to_lower s)"
| "normError (FunctionNotFound n) = FunctionNotFound (to_lower n)"
| "normError e = e"

fun normResult :: "error + 'a \<Rightarrow> error + 'a" where
  "normResult (Inl e) = Inl (normError e)"
| "normResult (Inr v) = Inr v"

text \<open>
  A tree up to the casing of the names of its calls.
\<close>

fun normNode :: "SreASTNode \<Rightarrow> SreASTNode" where
  "normNode (SreLogicalNode op l r) = SreLogicalNode op (normNode l) (map_option normNode r)"
| "normNode (SreValueNode val isVariable) = SreValueNode val isVariable"
| "normNode (SreFunctionNode name args) = SreFunctionNode (to_lower name) (map normNode args)"

text \<open>
  The next token of a text has the given type.
\<close>

definition nextIs :: "SreTokenType \<Rightarrow> string \<Rightarrow> bool" where
  "nextIs ty u = (case nextToken u of Inl e \<Rightarrow> False | Inr (tk, v) \<Rightarrow> tok_type tk = ty)"

text \<open>
  Two tokens, each with the input after it, are the same up to casing: the same type and
  the same lexeme, or lexemes equal in lower case when the token is a keyword or an
  identifier followed by \<open>(\<close>, that is a called name.
\<close>

definition ciTok :: "SreToken \<Rightarrow> string \<Rightarrow> SreToken \<Rightarrow> string \<Rightarrow> bool" where
  "ciTok tk v tk' v' =
     (tok_type tk = tok_type tk'
      \<and> (tok_text tk = tok_text tk'
         \<or> (to_lower (tok_text tk) = to_lower (tok_text tk')
            \<and> (tok_type tk \<in> {TAnd, TOr, TNot}
               \<or> (tok_type tk = TIdentifier \<and> nextIs TLParen v \<and> nextIs TLParen v')))))"

text \<open>
  Two inputs are lexed to the same tokens up to the casing of keywords and called names,
  and to the same lexical error if any.
\<close>

function ciLex :: "string \<Rightarrow> string \<Rightarrow> bool" where
  "ciLex u u' =
     (if u = u' then True
      else
        (case nextToken u of
           Inl e \<Rightarrow> (case nextToken u' of Inl e' \<Rightarrow> e = e' | Inr b \<Rightarrow> False)
         | Inr (tk, v) \<Rightarrow>
             (case nextToken u' of
                Inl e' \<Rightarrow> False
              | Inr (tk', v') \<Rightarrow>
                  if tok_type tk = TEnd then tok_type tk' = TEnd
                  else if ciTok tk v tk' v' then ciLex v v'
                  else False)))"
  by pat_completeness auto

definition ciState :: "SreParser \<Rightarrow> SreParser \<Rightarrow> bool" where
  "ciState p q =
     (ciTok (currentToken p) (lexer p) (currentToken q) (lexer q) \<and> ciLex (lexer p) (lexer q))"

text \<open>
  Results of a parsing function on two states related by \<open>ciState\<close>: errors equal up to
  casing, or trees related by \<open>R\<close> and states related again.
\<close>

definition simRes ::
  "('a \<Rightarrow> 'a \<Rightarrow> bool) \<Rightarrow> error + ('a \<times> SreParser) \<Rightarrow> error + ('a \<times> SreParser) \<Rightarrow> bool" where
  "simRes R x y =
     (case x of
        Inl e \<Rightarrow> (case y of Inl e' \<Rightarrow> normError e = normError e' | Inr b \<Rightarrow> False)
      | Inr (n, p) \<Rightarrow> (case y of Inl e' \<Rightarrow> False | Inr (n', q) \<Rightarrow> R n n' \<and> ciState p q))"

definition eqNode :: "SreASTNode \<Rightarrow> SreASTNode \<Rightarrow> bool" where
  "eqNode n n' = (normNode n = normNode n')"

definition eqNodes :: "SreASTNode list \<Rightarrow> SreASTNode list \<Rightarrow> bool" where
  "eqNodes ns ns' = (map normNode ns = map normNode ns')"

text \<open>The token type that the lexer gives to an identifier run with this lower-case form.\<close>

definition keywordType :: "string \<Rightarrow> SreTokenType" where
  "keywordType lower =
     (if lower = ''and'' then TAnd else if lower = ''or'' then TOr
      else if lower = ''not'' then TNot else TIdentifier)"

text \<open>
  \<open>invoked ctx functions root n\<close>: \<open>evalBool\<close> on \<open>root\<close> calls \<open>evalBool\<close> on the node \<open>n\<close>.
  \<open>SreLogicalNode::evalBool\<close> always evaluates its left child; \<open>&&\<close> evaluates the right
  child only when the left one returned true, \<open>||\<close> only when it returned false, and
  \<open>!\<close> has no right child to evaluate. A call evaluates its arguments with
  \<open>evalString\<close>, never with \<open>evalBool\<close>.
\<close>

fun invoked :: "SreContext \<Rightarrow> SreFunctions \<Rightarrow> SreASTNode \<Rightarrow> SreASTNode \<Rightarrow> bool" where
  "invoked ctx functions (SreLogicalNode OpAnd l None) n =
     (n = SreLogicalNode OpAnd l None \<or> invoked ctx functions l n)"
| "invoked ctx functions (SreLogicalNode OpAnd l (Some r)) n =
     (n = SreLogicalNode OpAnd l (Some r) \<or> invoked ctx functions l n
      \<or> (evalBool ctx functions l = Inr True \<and> invoked ctx functions r n))"
| "invoked ctx functions (SreLogicalNode OpOr l None) n =
     (n = SreLogicalNode OpOr l None \<or> invoked ctx functions l n)"
| "invoked ctx functions (SreLogicalNode OpOr l (Some r)) n =
     (n = SreLogicalNode OpOr l (Some r) \<or> invoked ctx functions l n
      \<or> (evalBool ctx functions l = Inr False \<and> invoked ctx functions r n))"
| "invoked ctx functions (SreLogicalNode OpNot l r) n =
     (n = SreLogicalNode OpNot l r \<or> invoked ctx functions l n)"
| "invoked ctx functions (SreValueNode s v) n = (n = SreValueNode s v)"
| "invoked ctx functions (SreFunctionNode f args) n = (n = SreFunctionNode f args)"

section \<open>Termination of the parser\<close>

lemma length_dropWhile_le: "length (dropWhile P xs) \<le> length xs"
  by (induction xs) auto

text \<open>A token other than \<open>End\<close> takes at least one character; \<open>End\<close> leaves nothing.\<close>

lemma nextToken_length:
  assumes "nextToken inp = Inr (t, rest)"
  shows "length rest + (if tok_type t = TEnd then 0 else 1) \<le> length inp"
proof (cases "skipWhitespace inp")
  case Nil
  with assms show ?thesis by (auto simp: nextToken_def)
next
  case (Cons c cs)
  have le: "Suc (length cs) \<le> length inp"
    using Cons length_dropWhile_le [of isspace inp] by (simp add: skipWhitespace_def)
  have d1: "length (dropWhile isIdentChar cs) \<le> length cs"
    by (rule length_dropWhile_le)
  have d2: "length (dropWhile (\<lambda>x. x \<noteq> CHR 0x27) cs) \<le> length cs"
    by (rule length_dropWhile_le)
  have ic: "isIdentStart c \<Longrightarrow> isIdentChar c"
    by (auto simp: isIdentStart_def isIdentChar_def isalnum_def)
  from assms Cons le d1 d2 ic show ?thesis
    by (auto simp: nextToken_def Let_def split: if_splits)
qed

lemma consume_remaining:
  assumes "consume ty p = Inr p'" and "ty \<noteq> TEnd"
  shows "remaining p' < remaining p"
  using assms nextToken_length [of "lexer p"]
  by (auto simp: consume_def remaining_def split: if_splits sum.splits)

lemma consume_le:
  "consume ty p = Inr p' \<Longrightarrow> ty \<noteq> TEnd \<Longrightarrow> remaining p' \<le> remaining p"
  using consume_remaining [of ty p p'] by simp

text \<open>
  Wherever a parsing function is defined and succeeds, it leaves no more than it found.
  This is what the termination proof needs of the calls that follow another call.
\<close>

lemma parse_remaining_partial:
  shows "parseExpression_parseOr_orLoop_parseAnd_andLoop_parseNot_parsePrimary_argsLoop_dom
           (Inl (Inl (Inl p1)))
     \<Longrightarrow> (\<And>n q. parseExpression p1 = Inr (n, q) \<Longrightarrow> remaining q \<le> remaining p1)"
  and "parseExpression_parseOr_orLoop_parseAnd_andLoop_parseNot_parsePrimary_argsLoop_dom
           (Inl (Inl (Inr p2)))
     \<Longrightarrow> (\<And>n q. parseOr p2 = Inr (n, q) \<Longrightarrow> remaining q \<le> remaining p2)"
  and "parseExpression_parseOr_orLoop_parseAnd_andLoop_parseNot_parsePrimary_argsLoop_dom
           (Inl (Inr (Inl (node3, p3))))
     \<Longrightarrow> (\<And>n q. orLoop node3 p3 = Inr (n, q) \<Longrightarrow> remaining q \<le> remaining p3)"
  and "parseExpression_parseOr_orLoop_parseAnd_andLoop_parseNot_parsePrimary_argsLoop_dom
           (Inl (Inr (Inr p4)))
     \<Longrightarrow> (\<And>n q. parseAnd p4 = Inr (n, q) \<Longrightarrow> remaining q \<le> remaining p4)"
  and "parseExpression_parseOr_orLoop_parseAnd_andLoop_parseNot_parsePrimary_argsLoop_dom
           (Inr (Inl (Inl (node5, p5))))
     \<Longrightarrow> (\<And>n q. andLoop node5 p5 = Inr (n, q) \<Longrightarrow> remaining q \<le> remaining p5)"
  and "parseExpression_parseOr_orLoop_parseAnd_andLoop_parseNot_parsePrimary_argsLoop_dom
           (Inr (Inl (Inr p6)))
     \<Longrightarrow> (\<And>n q. parseNot p6 = Inr (n, q) \<Longrightarrow> remaining q \<le> remaining p6)"
  and "parseExpression_parseOr_orLoop_parseAnd_andLoop_parseNot_parsePrimary_argsLoop_dom
           (Inr (Inr (Inl p7)))
     \<Longrightarrow> (\<And>n q. parsePrimary p7 = Inr (n, q) \<Longrightarrow> remaining q \<le> remaining p7)"
  and "parseExpression_parseOr_orLoop_parseAnd_andLoop_parseNot_parsePrimary_argsLoop_dom
           (Inr (Inr (Inr (args8, p8))))
     \<Longrightarrow> (\<And>n q. argsLoop args8 p8 = Inr (n, q) \<Longrightarrow> remaining q \<le> remaining p8)"
proof (induct
    rule: parseExpression_parseOr_orLoop_parseAnd_andLoop_parseNot_parsePrimary_argsLoop.pinduct)
  case (1 p)
  then show ?case by (simp add: parseExpression.psimps)
next
  case (2 p)
  then show ?case
    by (fastforce simp: parseOr.psimps split: sum.splits prod.splits)
next
  case (3 node p)
  then show ?case
    by (fastforce simp: orLoop.psimps split: sum.splits prod.splits if_splits
        dest!: consume_le)
next
  case (4 p)
  then show ?case
    by (fastforce simp: parseAnd.psimps split: sum.splits prod.splits)
next
  case (5 node p)
  then show ?case
    by (fastforce simp: andLoop.psimps split: sum.splits prod.splits if_splits
        dest!: consume_le)
next
  case (6 p)
  then show ?case
    by (fastforce simp: parseNot.psimps split: sum.splits prod.splits if_splits
        dest!: consume_le)
next
  case (7 p)
  then show ?case
    by (fastforce simp: parsePrimary.psimps Let_def split: sum.splits prod.splits if_splits
        dest!: consume_le)
next
  case (8 args p)
  then show ?case
    by (fastforce simp: argsLoop.psimps split: sum.splits prod.splits if_splits
        dest!: consume_le)
qed

termination parseExpression
  apply (relation "measure
    (\<lambda>x. case x of
       Inl (Inl (Inl p)) \<Rightarrow> 8 * remaining p + 7
     | Inl (Inl (Inr p)) \<Rightarrow> 8 * remaining p + 6
     | Inl (Inr (Inl (node, p))) \<Rightarrow> 8 * remaining p
     | Inl (Inr (Inr p)) \<Rightarrow> 8 * remaining p + 5
     | Inr (Inl (Inl (node, p))) \<Rightarrow> 8 * remaining p
     | Inr (Inl (Inr p)) \<Rightarrow> 8 * remaining p + 4
     | Inr (Inr (Inl p)) \<Rightarrow> 8 * remaining p + 3
     | Inr (Inr (Inr (args, p))) \<Rightarrow> 8 * remaining p)")
                 apply (simp; fail)
                apply (auto dest!: consume_remaining parse_remaining_partial)
  done

declare parseExpression.simps [simp del] parseOr.simps [simp del] orLoop.simps [simp del]
  parseAnd.simps [simp del] andLoop.simps [simp del] parseNot.simps [simp del]
  parsePrimary.simps [simp del] argsLoop.simps [simp del]

section \<open>Evaluating concrete inputs\<close>

lemmas char_defs = isspace_def isIdentStart_def isIdentChar_def isalnum_def isalpha_def
  isupper_def islower_def isdigit_def to_lower_def tolower_def char_of_eq_iff

lemmas lex_defs = nextToken_def skipWhitespace_def Let_def consume_def SreParser_new_def
  stripVarName_def

lemmas parse_simps = parseExpression.simps parseOr.simps orLoop.simps
  parseAnd.simps andLoop.simps parseNot.simps parsePrimary.simps argsLoop.simps

lemmas engine_defs = SreRuleEngine_new_def initBuiltInFunctions_def registerFunction_def
  contains_fn_def containsAny_fn_def

section \<open>The argument loop and the substring search\<close>

lemma evalArgs_all_ok:
  "list_all2 (\<lambda>a v. evalString ctx fns a = Inr v) args vs \<Longrightarrow>
   evalArgs ctx fns args acc = Inr (acc @ vs)"
  by (induction args vs arbitrary: acc rule: list_all2_induct) auto

lemma evalArgs_first_error:
  "list_all2 (\<lambda>a v. evalString ctx fns a = Inr v) pre vs \<Longrightarrow>
   evalString ctx fns a = Inl e \<Longrightarrow>
   evalArgs ctx fns (pre @ a # post) acc = Inl e"
  by (induction pre vs arbitrary: acc rule: list_all2_induct) auto

lemma all_ok_list_all2:
  "\<forall>a \<in> set args. \<exists>s. evalString ctx fns a = Inr s \<Longrightarrow>
   \<exists>vs. list_all2 (\<lambda>a v. evalString ctx fns a = Inr v) args vs"
proof (induction args)
  case Nil
  then show ?case by simp
next
  case (Cons a args)
  then obtain s vs where "evalString ctx fns a = Inr s"
    and "list_all2 (\<lambda>a v. evalString ctx fns a = Inr v) args vs"
    by auto
  then have "list_all2 (\<lambda>a v. evalString ctx fns a = Inr v) (a # args) (s # vs)"
    by simp
  then show ?case by blast
qed

lemma string_find_empty_needle: "string_find x [] = Some 0"
  by (cases x) auto

lemma string_find_self: "string_find x x = Some 0"
  by (cases x) auto

text \<open>The search finds the needle exactly when it is a contiguous part of the haystack.\<close>

lemma string_find_iff: "(string_find h n \<noteq> None) = (\<exists>p s. h = p @ n @ s)"
proof (induction h)
  case Nil
  then show ?case by auto
next
  case (Cons c h)
  show ?case
  proof (cases "take (length n) (c # h) = n")
    case True
    then have "c # h = [] @ n @ drop (length n) (c # h)"
      by (metis append_Nil append_take_drop_id)
    then have "\<exists>p s. c # h = p @ n @ s" by blast
    with True show ?thesis by simp
  next
    case False
    have "(\<exists>p s. c # h = p @ n @ s) = (\<exists>p s. h = p @ n @ s)"
    proof
      assume "\<exists>p s. c # h = p @ n @ s"
      then obtain p s where ps: "c # h = p @ n @ s" by blast
      show "\<exists>p s. h = p @ n @ s"
      proof (cases p)
        case Nil
        with ps have "take (length n) (c # h) = n" by simp
        with False show ?thesis by simp
      next
        case (Cons a p')
        with ps have "h = p' @ n @ s" by simp
        then show ?thesis by blast
      qed
    next
      assume "\<exists>p s. h = p @ n @ s"
      then obtain p s where "h = p @ n @ s" by blast
      then have "c # h = (c # p) @ n @ s" by simp
      then show "\<exists>p s. c # h = p @ n @ s" by blast
    qed
    with False Cons show ?thesis by simp
  qed
qed

section \<open>String literals without a closing quote\<close>

text \<open>
  C1. The specification makes a string literal whose opening quote is never closed a lex
  error. The lexer's loop for a literal stops at the end of the input as well as at a
  quote, and the statement after it steps over "the closing quote" without looking:
  the literal \<open>'abc\<close> is returned as the token \<open>StringLiteral "abc"\<close> and \<open>evaluate\<close>
  answers \<open>true\<close> instead of raising.
\<close>

theorem unterminated_literal_is_accepted:
  "nextToken '''abc'' = Inr (\<lparr>tok_type = TStringLiteral, tok_text = ''abc''\<rparr>, [])
   \<and> evaluate eng '''abc'' ctx = Inr True"
  by (simp add: evaluate_def parse_simps lex_defs char_defs)

section \<open>Unknown variables and functions\<close>



text \<open>
  C4. A call whose arguments all evaluate to strings and whose lowercased name is not a
  key of the registry raises "Function not found" with the name as written. In particular
  \<open>frobnicate(#{a})\<close> raises it out of \<open>evaluate\<close> when \<open>a\<close> is bound and the registry
  has no \<open>frobnicate\<close>, and the registry of a new engine has none.
\<close>

theorem unknown_function_raises:
  "((\<forall>arg \<in> set args. \<exists>s. evalString ctx fns arg = Inr s) \<and> fns (to_lower name) = None
    \<longrightarrow> evalBool ctx fns (SreFunctionNode name args) = Inl (FunctionNotFound name))
   \<and> (ctx ''a'' = Some v \<and> sre_functions eng ''frobnicate'' = None
    \<longrightarrow> evaluate eng ''frobnicate(#{a})'' ctx = Inl (FunctionNotFound ''frobnicate''))
   \<and> sre_functions SreRuleEngine_new ''frobnicate'' = None"
proof (intro conjI impI)
  assume h: "(\<forall>arg \<in> set args. \<exists>s. evalString ctx fns arg = Inr s)
    \<and> fns (to_lower name) = None"
  then obtain vs where "list_all2 (\<lambda>a v. evalString ctx fns a = Inr v) args vs"
    using all_ok_list_all2 by blast
  then have "evalArgs ctx fns args [] = Inr ([] @ vs)" by (rule evalArgs_all_ok)
  with h show "evalBool ctx fns (SreFunctionNode name args) = Inl (FunctionNotFound name)"
    by simp
next
  assume "ctx ''a'' = Some v \<and> sre_functions eng ''frobnicate'' = None"
  then show "evaluate eng ''frobnicate(#{a})'' ctx = Inl (FunctionNotFound ''frobnicate'')"
    by (simp add: evaluate_def parse_simps lex_defs char_defs)
next
  show "sre_functions SreRuleEngine_new ''frobnicate'' = None"
    by (simp add: engine_defs char_defs)
qed

theorem unknown_function_raises_witness:
  "evalBool (Map.empty(''a'' \<mapsto> ''hello'')) (sre_functions SreRuleEngine_new)
      (SreFunctionNode ''Frobnicate'' [SreValueNode ''a'' True, SreValueNode ''x'' False])
     = Inl (FunctionNotFound ''Frobnicate'')
   \<and> evaluate SreRuleEngine_new ''frobnicate(#{a})'' (Map.empty(''a'' \<mapsto> ''hello''))
     = Inl (FunctionNotFound ''frobnicate'')"
  using unknown_function_raises
    [of "[SreValueNode ''a'' True, SreValueNode ''x'' False]"
      "Map.empty(''a'' \<mapsto> ''hello'')" "sre_functions SreRuleEngine_new" "''Frobnicate''"
      "''hello''" SreRuleEngine_new]
  by (simp add: engine_defs char_defs)

text \<open>
  C10. A call evaluates its arguments to strings from left to right before it lowercases
  and looks up its name: when the argument loop throws, the call throws the same error
  whatever the registry holds; the error is that of the first argument that fails; only
  when every argument has a value is the name looked up and the predicate applied to the
  values in order. So \<open>frobnicate(#{missing})\<close>, with \<open>missing\<close> unbound, raises
  "Variable not found" and not "Function not found", under every registry.
\<close>

theorem arguments_before_lookup:
  "(evalArgs ctx fns args [] = Inl e \<longrightarrow> evalBool ctx fns (SreFunctionNode name args) = Inl e)
   \<and> ((\<forall>arg \<in> set pre. \<exists>s. evalString ctx fns arg = Inr s) \<and> evalString ctx fns a = Inl e
      \<longrightarrow> evalBool ctx fns (SreFunctionNode name (pre @ a # post)) = Inl e)
   \<and> (list_all2 (\<lambda>a v. evalString ctx fns a = Inr v) args vs
      \<longrightarrow> evalBool ctx fns (SreFunctionNode name args)
          = (case fns (to_lower name) of
               None \<Rightarrow> Inl (FunctionNotFound name)
             | Some f \<Rightarrow> f vs))
   \<and> (ctx ''missing'' = None
      \<longrightarrow> evaluate eng ''frobnicate(#{missing})'' ctx = Inl (VariableNotFound ''missing''))"
proof (intro conjI impI)
  assume "evalArgs ctx fns args [] = Inl e"
  then show "evalBool ctx fns (SreFunctionNode name args) = Inl e" by simp
next
  assume h: "(\<forall>arg \<in> set pre. \<exists>s. evalString ctx fns arg = Inr s)
    \<and> evalString ctx fns a = Inl e"
  then obtain vs where vs: "list_all2 (\<lambda>a v. evalString ctx fns a = Inr v) pre vs"
    using all_ok_list_all2 by blast
  from vs h have "evalArgs ctx fns (pre @ a # post) [] = Inl e"
    by (simp add: evalArgs_first_error)
  then show "evalBool ctx fns (SreFunctionNode name (pre @ a # post)) = Inl e" by simp
next
  assume "list_all2 (\<lambda>a v. evalString ctx fns a = Inr v) args vs"
  then have "evalArgs ctx fns args [] = Inr ([] @ vs)" by (rule evalArgs_all_ok)
  then show "evalBool ctx fns (SreFunctionNode name args)
          = (case fns (to_lower name) of
               None \<Rightarrow> Inl (FunctionNotFound name)
             | Some f \<Rightarrow> f vs)"
    by simp
next
  assume "ctx ''missing'' = None"
  then show "evaluate eng ''frobnicate(#{missing})'' ctx = Inl (VariableNotFound ''missing'')"
    by (simp add: evaluate_def parse_simps lex_defs char_defs)
qed

theorem arguments_before_lookup_witness:
  "evalBool Map.empty Map.empty
     (SreFunctionNode ''frobnicate'' [SreValueNode ''missing'' True, SreValueNode ''x'' False])
     = Inl (VariableNotFound ''missing'')
   \<and> evalBool Map.empty Map.empty
     (SreFunctionNode ''frobnicate'' ([SreValueNode ''x'' False] @ SreValueNode ''m'' True # []))
     = Inl (VariableNotFound ''m'')
   \<and> evalBool Map.empty (sre_functions SreRuleEngine_new)
     (SreFunctionNode ''CONTAINS'' [SreValueNode ''xay'' False, SreValueNode ''a'' False])
     = Inr True
   \<and> evaluate SreRuleEngine_new ''frobnicate(#{missing})'' Map.empty
     = Inl (VariableNotFound ''missing'')"
  using arguments_before_lookup [of Map.empty Map.empty
      "[SreValueNode ''missing'' True, SreValueNode ''x'' False]" "VariableNotFound ''missing''"
      "''frobnicate''"]
    arguments_before_lookup [of Map.empty Map.empty _ "VariableNotFound ''m''" "''frobnicate''"
      "[SreValueNode ''x'' False]" "SreValueNode ''m'' True" "[]"]
    arguments_before_lookup [of Map.empty "sre_functions SreRuleEngine_new"
      "[SreValueNode ''xay'' False, SreValueNode ''a'' False]" _ "''CONTAINS''" _ _ _
      "[''xay'', ''a'']"]
    arguments_before_lookup [of Map.empty _ _ _ _ _ _ _ _ SreRuleEngine_new]
  by (simp add: engine_defs char_defs)

section \<open>The built-in predicates\<close>

text \<open>
  C6. The built-in registered under \<open>contains\<close>, applied to exactly two strings:
  every string contains the empty string, every string contains itself, and the empty
  string contains \<open>y\<close> exactly when \<open>y\<close> is empty.
\<close>

theorem contains_substring_laws:
  "sre_functions SreRuleEngine_new (to_lower ''contains'') = Some contains_fn
   \<and> contains_fn [x, []] = Inr True
   \<and> contains_fn [x, x] = Inr True
   \<and> contains_fn [[], y] = Inr (y = [])"
  by (simp add: engine_defs char_defs string_find_empty_needle string_find_self)

text \<open>
  An error thrown by a node that is evaluated is thrown by every node whose evaluation
  evaluates it: \<open>and\<close>, \<open>or\<close> and \<open>not\<close> catch nothing.
\<close>

lemma invoked_error:
  "invoked ctx fns root n \<Longrightarrow> evalBool ctx fns n = Inl e
   \<Longrightarrow> evalBool ctx fns root = Inl e"
  by (induction ctx fns root n rule: invoked.induct) auto

text \<open>
  C7. \<open>contains\<close> throws on every argument list whose length is not 2 and returns a
  boolean on every list of length 2; \<open>containsAny\<close> throws on fewer than 2 arguments and
  returns a boolean on 2 or more. The error is the predicate's own: a call node that
  reaches the built-in under any casing of its name returns it. It is propagated out of
  \<open>evaluate\<close>: whatever a node that is evaluated throws, at the root or at any depth under
  \<open>and\<close>, \<open>or\<close> and \<open>not\<close>, is what \<open>evaluate\<close> returns on an expression parsed to a
  tree that evaluates this node, for every registry; so a call of a built-in with a wrong
  number of arguments that is evaluated makes \<open>evaluate\<close> return the arity error, as for
  \<open>contains('a')\<close>, \<open>not contains('a')\<close>, \<open>x and containsAny('a')\<close>,
  \<open>(contains('a') or x) and y\<close> and \<open>not x or not containsAny()\<close>. A call that is not
  evaluated is not invoked and throws nothing: the right operand of \<open>and\<close> after a false
  left operand, as in \<open>not x and contains('a')\<close>, and of \<open>or\<close> after a true one, as in
  \<open>x or containsAny('a')\<close>.
\<close>

theorem builtin_arity_contract:
  "(length args \<noteq> 2 \<longrightarrow> contains_fn args = Inl ContainsArity)
   \<and> (length args = 2 \<longrightarrow> (\<exists>b. contains_fn args = Inr b))
   \<and> (length args < 2 \<longrightarrow> containsAny_fn args = Inl ContainsAnyArity)
   \<and> (2 \<le> length args \<longrightarrow> (\<exists>b. containsAny_fn args = Inr b))
   \<and> (to_lower name = ''contains''
        \<and> evalArgs ctx (sre_functions SreRuleEngine_new) nodes [] = Inr args
        \<and> length args \<noteq> 2
      \<longrightarrow> evalBool ctx (sre_functions SreRuleEngine_new) (SreFunctionNode name nodes)
          = Inl ContainsArity)
   \<and> (to_lower name = ''containsany''
        \<and> evalArgs ctx (sre_functions SreRuleEngine_new) nodes [] = Inr args
        \<and> length args < 2
      \<longrightarrow> evalBool ctx (sre_functions SreRuleEngine_new) (SreFunctionNode name nodes)
          = Inl ContainsAnyArity)
   \<and> (SreParser_new expression = Inr parser
        \<and> parseExpression parser = Inr (root, parser')
        \<and> invoked ctx (sre_functions eng) root node
        \<and> evalBool ctx (sre_functions eng) node = Inl e
      \<longrightarrow> evaluate eng expression ctx = Inl e)
   \<and> (SreParser_new expression = Inr parser
        \<and> parseExpression parser = Inr (root, parser')
        \<and> invoked ctx (sre_functions SreRuleEngine_new) root (SreFunctionNode name nodes)
        \<and> to_lower name = ''contains''
        \<and> evalArgs ctx (sre_functions SreRuleEngine_new) nodes [] = Inr args
        \<and> length args \<noteq> 2
      \<longrightarrow> evaluate SreRuleEngine_new expression ctx = Inl ContainsArity)
   \<and> (SreParser_new expression = Inr parser
        \<and> parseExpression parser = Inr (root, parser')
        \<and> invoked ctx (sre_functions SreRuleEngine_new) root (SreFunctionNode name nodes)
        \<and> to_lower name = ''containsany''
        \<and> evalArgs ctx (sre_functions SreRuleEngine_new) nodes [] = Inr args
        \<and> length args < 2
      \<longrightarrow> evaluate SreRuleEngine_new expression ctx = Inl ContainsAnyArity)
   \<and> evaluate SreRuleEngine_new ''contains('a')'' ctx = Inl ContainsArity
   \<and> evaluate SreRuleEngine_new ''containsAny('a')'' ctx = Inl ContainsAnyArity
   \<and> evaluate SreRuleEngine_new ''not contains('a')'' ctx = Inl ContainsArity
   \<and> evaluate SreRuleEngine_new ''x and containsAny('a')'' ctx = Inl ContainsAnyArity
   \<and> evaluate SreRuleEngine_new ''(contains('a') or x) and y'' ctx = Inl ContainsArity
   \<and> evaluate SreRuleEngine_new ''not x or not containsAny()'' ctx = Inl ContainsAnyArity
   \<and> evaluate SreRuleEngine_new ''not x and contains('a')'' ctx = Inr False
   \<and> evaluate SreRuleEngine_new ''x or containsAny('a')'' ctx = Inr True"
proof -
  have call_contains: "evalBool ctx (sre_functions SreRuleEngine_new) (SreFunctionNode name nodes)
      = Inl ContainsArity"
    if "to_lower name = ''contains''"
      and "evalArgs ctx (sre_functions SreRuleEngine_new) nodes [] = Inr args"
      and "length args \<noteq> 2"
    for name nodes args
    using that by (simp add: engine_defs char_defs)
  have call_containsAny: "evalBool ctx (sre_functions SreRuleEngine_new)
      (SreFunctionNode name nodes) = Inl ContainsAnyArity"
    if "to_lower name = ''containsany''"
      and "evalArgs ctx (sre_functions SreRuleEngine_new) nodes [] = Inr args"
      and "length args < 2"
    for name nodes args
    using that by (simp add: engine_defs char_defs)
  have propagate: "evaluate eng expression ctx = Inl e"
    if "SreParser_new expression = Inr parser"
      and "parseExpression parser = Inr (root, parser')"
      and "invoked ctx (sre_functions eng) root node"
      and "evalBool ctx (sre_functions eng) node = Inl e"
    for eng node e
    using that by (simp add: evaluate_def invoked_error)
  have examples: "evaluate SreRuleEngine_new ''contains('a')'' ctx = Inl ContainsArity"
    "evaluate SreRuleEngine_new ''containsAny('a')'' ctx = Inl ContainsAnyArity"
    "evaluate SreRuleEngine_new ''not contains('a')'' ctx = Inl ContainsArity"
    "evaluate SreRuleEngine_new ''x and containsAny('a')'' ctx = Inl ContainsAnyArity"
    "evaluate SreRuleEngine_new ''(contains('a') or x) and y'' ctx = Inl ContainsArity"
    "evaluate SreRuleEngine_new ''not x or not containsAny()'' ctx = Inl ContainsAnyArity"
    "evaluate SreRuleEngine_new ''not x and contains('a')'' ctx = Inr False"
    "evaluate SreRuleEngine_new ''x or containsAny('a')'' ctx = Inr True"
    by (simp_all add: engine_defs evaluate_def parse_simps lex_defs char_defs)
  have arity: "length args \<noteq> 2 \<longrightarrow> contains_fn args = Inl ContainsArity"
    "length args = 2 \<longrightarrow> (\<exists>b. contains_fn args = Inr b)"
    "length args < 2 \<longrightarrow> containsAny_fn args = Inl ContainsAnyArity"
    "2 \<le> length args \<longrightarrow> (\<exists>b. containsAny_fn args = Inr b)"
    by (simp_all add: engine_defs)
  show ?thesis
    using arity examples
    by (intro conjI impI; (elim conjE)?)
      (simp_all only: call_contains call_containsAny propagate [where eng = eng]
        propagate [where eng = SreRuleEngine_new, OF _ _ _ call_contains]
        propagate [where eng = SreRuleEngine_new, OF _ _ _ call_containsAny] simp_thms)
qed

theorem builtin_arity_contract_witness:
  "contains_fn [''a'', ''b'', ''c''] = Inl ContainsArity
   \<and> (\<exists>b. contains_fn [''a'', ''b''] = Inr b)
   \<and> containsAny_fn [''a''] = Inl ContainsAnyArity
   \<and> (\<exists>b. containsAny_fn [''a'', ''b'', ''c''] = Inr b)
   \<and> evalBool Map.empty (sre_functions SreRuleEngine_new)
        (SreFunctionNode ''Contains'' [SreValueNode ''a'' False]) = Inl ContainsArity
   \<and> evalBool Map.empty (sre_functions SreRuleEngine_new)
        (SreFunctionNode ''CONTAINSANY'' []) = Inl ContainsAnyArity
   \<and> evaluate (registerFunction ''p'' (\<lambda>args. Inl (PredicateFailure ''p'')) SreRuleEngine_new)
        ''x and not p(a)'' Map.empty = Inl (PredicateFailure ''p'')
   \<and> evaluate SreRuleEngine_new ''not x or Contains(a, b, c)'' Map.empty = Inl ContainsArity
   \<and> evaluate SreRuleEngine_new ''(x or y) and not containsANY(a)'' Map.empty
     = Inl ContainsAnyArity"
proof (intro conjI)
  let ?end = "\<lparr>lexer = [], currentToken = \<lparr>tok_type = TEnd, tok_text = []\<rparr>\<rparr>"
  let ?x = "SreValueNode ''x'' False"
  let ?eng = "registerFunction ''p'' (\<lambda>args. Inl (PredicateFailure ''p'')) SreRuleEngine_new"
  let ?p = "SreFunctionNode ''p'' [SreValueNode ''a'' False]"
  let ?c = "SreFunctionNode ''Contains''
      [SreValueNode ''a'' False, SreValueNode ''b'' False, SreValueNode ''c'' False]"
  let ?d = "SreFunctionNode ''containsANY'' [SreValueNode ''a'' False]"
  let ?r1 = "SreLogicalNode OpAnd ?x (Some (SreLogicalNode OpNot ?p None))"
  let ?r2 = "SreLogicalNode OpOr (SreLogicalNode OpNot ?x None) (Some ?c)"
  let ?r3 = "SreLogicalNode OpAnd
      (SreLogicalNode OpOr ?x (Some (SreValueNode ''y'' False)))
      (Some (SreLogicalNode OpNot ?d None))"
  let ?s1 = "\<lparr>lexer = '' and not p(a)'',
      currentToken = \<lparr>tok_type = TIdentifier, tok_text = ''x''\<rparr>\<rparr>"
  let ?s2 = "\<lparr>lexer = '' x or Contains(a, b, c)'',
      currentToken = \<lparr>tok_type = TNot, tok_text = ''not''\<rparr>\<rparr>"
  let ?s3 = "\<lparr>lexer = ''x or y) and not containsANY(a)'',
      currentToken = \<lparr>tok_type = TLParen, tok_text = ''(''\<rparr>\<rparr>"
  have p1: "SreParser_new ''x and not p(a)'' = Inr ?s1"
    by (simp add: lex_defs char_defs)
  have q1: "parseExpression ?s1 = Inr (?r1, ?end)"
    by (simp add: parse_simps lex_defs char_defs)
  have i1: "invoked Map.empty (sre_functions ?eng) ?r1 ?p"
    by (simp add: engine_defs char_defs)
  have e1: "evalBool Map.empty (sre_functions ?eng) ?p = Inl (PredicateFailure ''p'')"
    by (simp add: engine_defs char_defs)
  have p2: "SreParser_new ''not x or Contains(a, b, c)'' = Inr ?s2"
    by (simp add: lex_defs char_defs)
  have q2: "parseExpression ?s2 = Inr (?r2, ?end)"
    by (simp add: parse_simps lex_defs char_defs)
  have i2: "invoked Map.empty (sre_functions SreRuleEngine_new) ?r2 ?c"
    by (simp add: engine_defs char_defs)
  have n2: "to_lower ''Contains'' = ''contains''"
    by (simp add: char_defs)
  have a2: "evalArgs Map.empty (sre_functions SreRuleEngine_new)
      [SreValueNode ''a'' False, SreValueNode ''b'' False, SreValueNode ''c'' False] []
      = Inr [''a'', ''b'', ''c'']"
    by simp
  have p3: "SreParser_new ''(x or y) and not containsANY(a)'' = Inr ?s3"
    by (simp add: lex_defs char_defs)
  have q3: "parseExpression ?s3 = Inr (?r3, ?end)"
    by (simp add: parse_simps lex_defs char_defs)
  have i3: "invoked Map.empty (sre_functions SreRuleEngine_new) ?r3 ?d"
    by (simp add: engine_defs char_defs)
  have n3: "to_lower ''containsANY'' = ''containsany''"
    by (simp add: char_defs)
  have a3: "evalArgs Map.empty (sre_functions SreRuleEngine_new) [SreValueNode ''a'' False] []
      = Inr [''a'']"
    by simp
  show "contains_fn [''a'', ''b'', ''c''] = Inl ContainsArity"
    using builtin_arity_contract [where args = "[''a'', ''b'', ''c'']"] by simp
  show "\<exists>b. contains_fn [''a'', ''b''] = Inr b"
    using builtin_arity_contract [where args = "[''a'', ''b'']"] by simp
  show "containsAny_fn [''a''] = Inl ContainsAnyArity"
    using builtin_arity_contract [where args = "[''a'']"] by simp
  show "\<exists>b. containsAny_fn [''a'', ''b'', ''c''] = Inr b"
    using builtin_arity_contract [where args = "[''a'', ''b'', ''c'']"] by simp
  show "evalBool Map.empty (sre_functions SreRuleEngine_new)
        (SreFunctionNode ''Contains'' [SreValueNode ''a'' False]) = Inl ContainsArity"
    using builtin_arity_contract [where args = "[''a'']" and name = "''Contains''"
        and ctx = Map.empty and nodes = "[SreValueNode ''a'' False]"] n2 a3
    by simp
  show "evalBool Map.empty (sre_functions SreRuleEngine_new)
        (SreFunctionNode ''CONTAINSANY'' []) = Inl ContainsAnyArity"
    using builtin_arity_contract [where args = "[]" and name = "''CONTAINSANY''"
        and ctx = Map.empty and nodes = "[]"]
    by (simp add: char_defs)
  show "evaluate ?eng ''x and not p(a)'' Map.empty = Inl (PredicateFailure ''p'')"
    using builtin_arity_contract [where expression = "''x and not p(a)''" and parser = ?s1
        and root = ?r1 and parser' = ?end and ctx = Map.empty and eng = ?eng and node = ?p
        and e = "PredicateFailure ''p''"] p1 q1 i1 e1
    by simp
  show "evaluate SreRuleEngine_new ''not x or Contains(a, b, c)'' Map.empty = Inl ContainsArity"
    using builtin_arity_contract [where expression = "''not x or Contains(a, b, c)''"
        and parser = ?s2 and root = ?r2 and parser' = ?end and ctx = Map.empty
        and name = "''Contains''" and args = "[''a'', ''b'', ''c'']"
        and nodes = "[SreValueNode ''a'' False, SreValueNode ''b'' False,
          SreValueNode ''c'' False]"] p2 q2 i2 n2 a2
    by simp
  show "evaluate SreRuleEngine_new ''(x or y) and not containsANY(a)'' Map.empty
     = Inl ContainsAnyArity"
    using builtin_arity_contract [where expression = "''(x or y) and not containsANY(a)''"
        and parser = ?s3 and root = ?r3 and parser' = ?end and ctx = Map.empty
        and name = "''containsANY''" and args = "[''a'']"
        and nodes = "[SreValueNode ''a'' False]"] p3 q3 i3 n3 a3
    by simp
qed

section \<open>Arguments that are not strings\<close>

text \<open>
  C8. A logical node and a call node have no string value: \<open>evalString\<close> throws
  "Not a string expression node" on both. The parser takes a full expression in argument
  position, so a call can hold such a node; when the arguments before it have values,
  the call throws that error at it. \<open>contains(not 'x', 'y')\<close> and
  \<open>contains(contains('a','b'), 'c')\<close> parse and raise it out of \<open>evaluate\<close>, under
  every context and registry.
\<close>

theorem non_string_argument_raises:
  "evalString ctx fns (SreLogicalNode op l r) = Inl NotAStringNode
   \<and> evalString ctx fns (SreFunctionNode fname fargs) = Inl NotAStringNode
   \<and> ((\<forall>arg \<in> set pre. \<exists>s. evalString ctx fns arg = Inr s)
        \<and> (\<forall>val isVariable. bad \<noteq> SreValueNode val isVariable)
      \<longrightarrow> evalBool ctx fns (SreFunctionNode name (pre @ bad # post)) = Inl NotAStringNode)
   \<and> evaluate eng ''contains(not 'x', 'y')'' ctx = Inl NotAStringNode
   \<and> evaluate eng ''contains(contains('a','b'), 'c')'' ctx = Inl NotAStringNode"
proof (intro conjI impI)
  assume h: "(\<forall>arg \<in> set pre. \<exists>s. evalString ctx fns arg = Inr s)
        \<and> (\<forall>val isVariable. bad \<noteq> SreValueNode val isVariable)"
  then obtain vs where vs: "list_all2 (\<lambda>a v. evalString ctx fns a = Inr v) pre vs"
    using all_ok_list_all2 by blast
  from h have "evalString ctx fns bad = Inl NotAStringNode"
    by (cases bad) auto
  with vs have "evalArgs ctx fns (pre @ bad # post) [] = Inl NotAStringNode"
    by (rule evalArgs_first_error)
  then show "evalBool ctx fns (SreFunctionNode name (pre @ bad # post)) = Inl NotAStringNode"
    by simp
qed (simp_all add: evaluate_def parse_simps lex_defs char_defs)

theorem non_string_argument_raises_witness:
  "evalBool Map.empty Map.empty
     (SreFunctionNode ''contains''
        ([SreValueNode ''a'' False] @ SreLogicalNode OpNot (SreValueNode ''x'' False) None
           # [SreValueNode ''#'' True]))
   = Inl NotAStringNode"
  using non_string_argument_raises [of Map.empty Map.empty _ _ _ _ _ "[SreValueNode ''a'' False]"
      "SreLogicalNode OpNot (SreValueNode ''x'' False) None" "''contains''"
      "[SreValueNode ''#'' True]"]
  by simp

section \<open>Parsing an input that is continued\<close>

lemma quotes_simps [simp]:
  "quotes [] = 0"
  "quotes (c # s) = (if c = CHR 0x27 then Suc (quotes s) else quotes s)"
  "quotes (s @ s') = quotes s + quotes s'"
  by (simp_all add: quotes_def)

lemma isspace_not_quote: "isspace c \<Longrightarrow> c \<noteq> CHR 0x27"
  by (auto simp: isspace_def)

lemma isIdentChar_not_quote: "isIdentChar c \<Longrightarrow> c \<noteq> CHR 0x27"
  by (auto simp: char_defs)

lemma isIdentChar_not_space: "isIdentChar c \<Longrightarrow> \<not> isspace c"
  by (auto simp: char_defs)

lemma isIdentStart_isIdentChar: "isIdentStart c \<Longrightarrow> isIdentChar c"
  by (auto simp: isIdentStart_def isIdentChar_def isalnum_def)

lemma quotes_dropWhile_space: "quotes (dropWhile isspace s) = quotes s"
  by (induction s) (auto dest: isspace_not_quote)

lemma quotes_dropWhile_ident: "quotes (dropWhile isIdentChar s) = quotes s"
  by (induction s) (auto dest: isIdentChar_not_quote)

lemma quotes_takeWhile_nq: "quotes (takeWhile (\<lambda>x. x \<noteq> CHR 0x27) s) = 0"
  by (induction s) auto

lemma quotes_dropWhile_nq: "quotes (dropWhile (\<lambda>x. x \<noteq> CHR 0x27) s) = quotes s"
  by (induction s) auto

text \<open>skipping white space first changes nothing\<close>

lemma nextToken_skip: "\<forall>c \<in> set ws. isspace c \<Longrightarrow> nextToken (ws @ s) = nextToken s"
  by (simp add: nextToken_def skipWhitespace_def dropWhile_append2)

lemma nextToken_End:
  assumes "nextToken u = Inr (tk, v)" and "tok_type tk = TEnd"
  shows "v = [] \<and> (\<forall>c \<in> set u. isspace c) \<and> tk = \<lparr>tok_type = TEnd, tok_text = []\<rparr>"
proof (cases "skipWhitespace u")
  case Nil
  then have "\<forall>c \<in> set u. isspace c"
    by (simp add: skipWhitespace_def dropWhile_eq_Nil_conv)
  with assms Nil show ?thesis by (auto simp: nextToken_def)
next
  case (Cons c cs)
  with assms show ?thesis
    by (auto simp: nextToken_def Let_def split: if_splits)
qed

lemma takeWhile_dropWhile_append:
  "dropWhile P xs \<noteq> [] \<or> t = [] \<or> \<not> P (hd t) \<Longrightarrow>
   takeWhile P (xs @ t) = takeWhile P xs \<and> dropWhile P (xs @ t) = dropWhile P xs @ t"
  by (induction xs) (cases t; auto)+

lemma skipWhitespace_append:
  "skipWhitespace u = c # cs \<Longrightarrow> skipWhitespace (u @ t) = c # cs @ t"
  using takeWhile_dropWhile_append [of isspace u t]
  by (simp add: skipWhitespace_def)

lemma nextToken_append:
  assumes nt: "nextToken u = Inr (tk, v)" and ne: "tok_type tk \<noteq> TEnd"
    and ev: "even (quotes u)"
    and bd: "v = [] \<and> tok_type tk \<in> {TIdentifier, TAnd, TOr, TNot} \<longrightarrow> t = [] \<or> \<not> isIdentChar (hd t)"
  shows "nextToken (u @ t) = Inr (tk, v @ t) \<and> even (quotes v)"
proof (cases "skipWhitespace u")
  case Nil
  with nt ne show ?thesis by (auto simp: nextToken_def)
next
  case (Cons c cs)
  note sk = skipWhitespace_append [OF Cons, of t]
  have qu: "quotes (c # cs) = quotes u"
    using Cons quotes_dropWhile_space [of u] by (simp add: skipWhitespace_def)
  show ?thesis
  proof (cases "isIdentStart c")
    case True
    let ?v = "dropWhile isIdentChar (c # cs)"
    from nt Cons True have v: "v = ?v"
      by (auto simp: nextToken_def Let_def split: if_splits)
    from nt Cons True have ty: "tok_type tk \<in> {TIdentifier, TAnd, TOr, TNot}"
      by (auto simp: nextToken_def Let_def split: if_splits)
    from v ty bd have "?v \<noteq> [] \<or> t = [] \<or> \<not> isIdentChar (hd t)" by auto
    from takeWhile_dropWhile_append [OF this]
    have tw: "takeWhile isIdentChar ((c # cs) @ t) = takeWhile isIdentChar (c # cs)"
      and dw: "dropWhile isIdentChar ((c # cs) @ t) = ?v @ t" by auto
    have "nextToken (u @ t) = Inr (tk, v @ t)"
      using nt Cons True tw dw v unfolding nextToken_def sk Cons
      by (auto simp: Let_def isIdentStart_isIdentChar split: if_splits)
    moreover have "even (quotes v)"
      using ev qu v quotes_dropWhile_ident [of "c # cs"] by simp
    ultimately show ?thesis by simp
  next
    case False
    show ?thesis
    proof (cases "c = CHR 0x27")
      case True
      let ?d = "dropWhile (\<lambda>x. x \<noteq> CHR 0x27) cs"
      from nt Cons False True have v: "v = drop 1 ?d"
        and tk: "tk = \<lparr>tok_type = TStringLiteral, tok_text = takeWhile (\<lambda>x. x \<noteq> CHR 0x27) cs\<rparr>"
        by (auto simp: nextToken_def Let_def)
      from qu True have "quotes u = Suc (quotes cs)" by simp
      with ev have "odd (quotes cs)" by simp
      then have "quotes ?d \<noteq> 0"
        using quotes_dropWhile_nq [of cs] by (metis even_zero)
      then have dne: "?d \<noteq> []" by (metis quotes_simps(1))
      then have hdq: "hd ?d = CHR 0x27"
        using hd_dropWhile [of "\<lambda>x. x \<noteq> CHR 0x27" cs] by simp
      from dne takeWhile_dropWhile_append [of "\<lambda>x. x \<noteq> CHR 0x27" cs t]
      have tw: "takeWhile (\<lambda>x. x \<noteq> CHR 0x27) (cs @ t) = takeWhile (\<lambda>x. x \<noteq> CHR 0x27) cs"
        and dw: "dropWhile (\<lambda>x. x \<noteq> CHR 0x27) (cs @ t) = ?d @ t" by auto
      from dne have dr: "drop 1 (?d @ t) = drop 1 ?d @ t" by (cases ?d) auto
      have "nextToken (u @ t) = Inr (tk, v @ t)"
        using False True tw dw dr v tk unfolding nextToken_def sk
        by (simp add: Let_def)
      moreover have "even (quotes v)"
      proof -
        from dne hdq have "?d = CHR 0x27 # drop 1 ?d" by (cases ?d) auto
        then have "quotes ?d = Suc (quotes (drop 1 ?d))"
          by (metis quotes_simps(2))
        with quotes_dropWhile_nq [of cs] v have "quotes cs = Suc (quotes v)" by simp
        with \<open>odd (quotes cs)\<close> show ?thesis by simp
      qed
      ultimately show ?thesis by simp
    next
      case nq: False
      from nt Cons False nq have v: "v = cs"
        by (auto simp: nextToken_def Let_def split: if_splits)
      have "nextToken (u @ t) = Inr (tk, v @ t)"
        using nt Cons False nq v unfolding nextToken_def sk
        by (auto simp: Let_def split: if_splits)
      moreover have "even (quotes v)"
        using ev qu v nq by simp
      ultimately show ?thesis by simp
    qed
  qed
qed

lemma nextToken_suffix:
  assumes "nextToken u = Inr (tk, v)"
  shows "suffix v u"
proof (cases "skipWhitespace u")
  case Nil
  with assms show ?thesis by (auto simp: nextToken_def)
next
  case (Cons c cs)
  have s0: "suffix (c # cs) u"
    using Cons suffix_dropWhile [of isspace u] by (simp add: skipWhitespace_def)
  have s1: "suffix (dropWhile isIdentChar cs) (c # cs)"
    by (meson suffix_ConsI suffix_dropWhile)
  have s2: "suffix (drop 1 (dropWhile (\<lambda>x. x \<noteq> CHR 0x27) cs)) (c # cs)"
    by (meson suffix_ConsI suffix_drop suffix_dropWhile suffix_order.trans)
  have s3: "suffix cs (c # cs)"
    by (simp add: suffix_ConsI)
  from assms Cons have "v = dropWhile isIdentChar cs \<or> v = cs
      \<or> v = drop 1 (dropWhile (\<lambda>x. x \<noteq> CHR 0x27) cs)"
    by (auto simp: nextToken_def Let_def isIdentStart_isIdentChar split: if_splits)
  with s0 s1 s2 s3 show ?thesis
    by (metis suffix_order.trans)
qed

lemma nextToken_ident_last:
  assumes "nextToken u = Inr (tk, v)"
    and "tok_type tk \<in> {TIdentifier, TAnd, TOr, TNot}"
  shows "\<exists>w c. u = w @ c # v \<and> isIdentChar c"
proof (cases "skipWhitespace u")
  case Nil
  with assms show ?thesis by (auto simp: nextToken_def)
next
  case (Cons c cs)
  define pre where "pre = takeWhile isspace u"
  define s where "s = takeWhile isIdentChar (c # cs)"
  have u: "u = pre @ c # cs"
    using Cons takeWhile_dropWhile_id [of isspace u] by (simp add: skipWhitespace_def pre_def)
  from assms Cons have st: "isIdentStart c"
    by (auto simp: nextToken_def Let_def split: if_splits)
  with assms Cons have v: "v = dropWhile isIdentChar (c # cs)"
    by (auto simp: nextToken_def Let_def split: if_splits)
  from st have ne: "s \<noteq> []" by (simp add: s_def isIdentStart_isIdentChar)
  then have "last s \<in> set s" by (rule last_in_set)
  then have il: "isIdentChar (last s)"
    unfolding s_def by (rule set_takeWhileD [THEN conjunct2])
  have "c # cs = s @ v" using v by (simp add: s_def)
  also from ne have "s = butlast s @ [last s]" by simp
  finally have "c # cs = butlast s @ last s # v" by simp
  then have "u = (pre @ butlast s) @ last s # v" by (simp only: u append_assoc)
  with il show ?thesis by blast
qed

lemma endsWithIdentifier_append:
  assumes "isIdentChar c" and "\<forall>x \<in> set v. isspace x"
  shows "endsWithIdentifier (w @ c # v)"
proof -
  have "dropWhile isspace (rev v @ c # rev w) = dropWhile isspace (c # rev w)"
    using assms(2) by (intro dropWhile_append2) auto
  with assms(1) have "dropWhile isspace (rev (w @ c # v)) = c # rev w"
    by (simp add: isIdentChar_not_space)
  with assms show ?thesis by (simp add: endsWithIdentifier_def)
qed

lemma nextToken_frame:
  assumes nt: "nextToken u = Inr (tk, v)"
    and ev: "even (quotes u)" and su: "suffix u e" and bd: "boundary e t"
    and tt: "nextToken t = Inr (tok, r)"
  shows "frameInv e \<lparr>lexer = v, currentToken = tk\<rparr>
    \<and> nextToken (u @ t)
      = Inr (currentToken (resume t \<lparr>lexer = v, currentToken = tk\<rparr>),
             lexer (resume t \<lparr>lexer = v, currentToken = tk\<rparr>))"
proof (cases "tok_type tk = TEnd")
  case True
  from nextToken_End [OF nt True] have v: "v = []" and ws: "\<forall>c \<in> set u. isspace c" by auto
  from ws have "nextToken (u @ t) = nextToken t" by (rule nextToken_skip)
  with True v tt show ?thesis by (simp add: resume_def frameInv_def)
next
  case False
  have id: "tok_type tk \<in> {TIdentifier, TAnd, TOr, TNot} \<Longrightarrow> \<exists>w c. e = w @ c # v \<and> isIdentChar c"
  proof -
    assume "tok_type tk \<in> {TIdentifier, TAnd, TOr, TNot}"
    from nextToken_ident_last [OF nt this] obtain w c where "u = w @ c # v" "isIdentChar c"
      by blast
    moreover from su obtain pre where "e = pre @ u" by (auto simp: suffix_def)
    ultimately have "e = (pre @ w) @ c # v" "isIdentChar c" by auto
    then show ?thesis by blast
  qed
  have "v = [] \<and> tok_type tk \<in> {TIdentifier, TAnd, TOr, TNot} \<longrightarrow> t = [] \<or> \<not> isIdentChar (hd t)"
  proof (intro impI, elim conjE)
    assume "v = []" and "tok_type tk \<in> {TIdentifier, TAnd, TOr, TNot}"
    with id obtain w c where "e = w @ [c]" "isIdentChar c" by auto
    with bd show "t = [] \<or> \<not> isIdentChar (hd t)" by (simp add: boundary_def)
  qed
  from nextToken_append [OF nt False ev this]
  have app: "nextToken (u @ t) = Inr (tk, v @ t)" and ev': "even (quotes v)" by auto
  have sv: "suffix v e" using nextToken_suffix [OF nt] su by (rule suffix_order.trans)
  have "tok_type tk = TIdentifier \<and> (\<forall>c \<in> set v. isspace c) \<longrightarrow> endsWithIdentifier e"
    using id endsWithIdentifier_append by auto
  with app ev' sv False show ?thesis by (simp add: resume_def frameInv_def)
qed

lemma consume_frame:
  assumes "consume ty p = Inr p'" and "frameInv e p" and "ty \<noteq> TEnd"
    and "boundary e t" and "nextToken t = Inr (tok, r)"
  shows "frameInv e p' \<and> consume ty (resume t p) = Inr (resume t p')"
proof -
  from assms(1) obtain tk v where nt: "nextToken (lexer p) = Inr (tk, v)"
    and p': "p' = \<lparr>lexer = v, currentToken = tk\<rparr>" and ty: "tok_type (currentToken p) = ty"
    by (auto simp: consume_def split: if_splits sum.splits)
  from assms(2) have "even (quotes (lexer p))" "suffix (lexer p) e"
    by (auto simp: frameInv_def)
  from nextToken_frame [OF nt this assms(4,5)] p' ty assms(3)
  show ?thesis by (simp add: consume_def resume_def)
qed

lemma resume_tok:
  "tok_type (currentToken p) \<noteq> TEnd \<Longrightarrow> currentToken (resume t p) = currentToken p"
  by (simp add: resume_def)

lemma resume_End:
  "tok_type (currentToken p) = TEnd \<Longrightarrow> nextToken t = Inr (tok, r) \<Longrightarrow>
   currentToken (resume t p) = tok"
  by (simp add: resume_def)

lemma parsePrimary_not_End:
  "parsePrimary p = Inr x \<Longrightarrow> tok_type (currentToken p) \<noteq> TEnd"
  by (auto simp: parsePrimary.simps [of p] split: if_splits)

lemma parseNot_not_End:
  "parseNot p = Inr x \<Longrightarrow> tok_type (currentToken p) \<noteq> TEnd"
  by (auto simp: parseNot.simps [of p] dest: parsePrimary_not_End split: if_splits)

lemma parseAnd_not_End:
  "parseAnd p = Inr x \<Longrightarrow> tok_type (currentToken p) \<noteq> TEnd"
  by (auto simp: parseAnd.simps [of p] dest: parseNot_not_End split: sum.splits)

lemma parseOr_not_End:
  "parseOr p = Inr x \<Longrightarrow> tok_type (currentToken p) \<noteq> TEnd"
  by (auto simp: parseOr.simps [of p] dest: parseAnd_not_End split: sum.splits)

lemma parseExpression_not_End:
  "parseExpression p = Inr x \<Longrightarrow> tok_type (currentToken p) \<noteq> TEnd"
  by (auto simp: parseExpression.simps [of p] dest: parseOr_not_End)

lemma parse_frame:
  assumes bd: "boundary e t" and tt: "nextToken t = Inr (tok, r)"
    and lp: "tok_type tok = TLParen \<longrightarrow> \<not> endsWithIdentifier e"
  shows "\<And>n p'. parseExpression p1 = Inr (n, p') \<Longrightarrow> frameInv e p1 \<Longrightarrow>
           (tok_type (currentToken p') = TEnd \<longrightarrow> tok_type tok \<notin> {TAnd, TOr}) \<Longrightarrow>
           frameInv e p' \<and> parseExpression (resume t p1) = Inr (n, resume t p')"
    and "\<And>n p'. parseOr p2 = Inr (n, p') \<Longrightarrow> frameInv e p2 \<Longrightarrow>
           (tok_type (currentToken p') = TEnd \<longrightarrow> tok_type tok \<notin> {TAnd, TOr}) \<Longrightarrow>
           frameInv e p' \<and> parseOr (resume t p2) = Inr (n, resume t p')"
    and "\<And>n p'. orLoop node3 p3 = Inr (n, p') \<Longrightarrow> frameInv e p3 \<Longrightarrow>
           (tok_type (currentToken p') = TEnd \<longrightarrow> tok_type tok \<notin> {TAnd, TOr}) \<Longrightarrow>
           frameInv e p' \<and> orLoop node3 (resume t p3) = Inr (n, resume t p')"
    and "\<And>n p'. parseAnd p4 = Inr (n, p') \<Longrightarrow> frameInv e p4 \<Longrightarrow>
           (tok_type (currentToken p') = TEnd \<longrightarrow> tok_type tok \<noteq> TAnd) \<Longrightarrow>
           frameInv e p' \<and> parseAnd (resume t p4) = Inr (n, resume t p')"
    and "\<And>n p'. andLoop node5 p5 = Inr (n, p') \<Longrightarrow> frameInv e p5 \<Longrightarrow>
           (tok_type (currentToken p') = TEnd \<longrightarrow> tok_type tok \<noteq> TAnd) \<Longrightarrow>
           frameInv e p' \<and> andLoop node5 (resume t p5) = Inr (n, resume t p')"
    and "\<And>n p'. parseNot p6 = Inr (n, p') \<Longrightarrow> frameInv e p6 \<Longrightarrow>
           frameInv e p' \<and> parseNot (resume t p6) = Inr (n, resume t p')"
    and "\<And>n p'. parsePrimary p7 = Inr (n, p') \<Longrightarrow> frameInv e p7 \<Longrightarrow>
           frameInv e p' \<and> parsePrimary (resume t p7) = Inr (n, resume t p')"
    and "\<And>ns p'. argsLoop args8 p8 = Inr (ns, p') \<Longrightarrow> frameInv e p8 \<Longrightarrow>
           tok_type (currentToken p') \<noteq> TEnd \<Longrightarrow>
           frameInv e p' \<and> argsLoop args8 (resume t p8) = Inr (ns, resume t p')"
proof (induct p1 and p2 and node3 p3 and p4 and node5 p5 and p6 and p7 and args8 p8
    rule: parseExpression_parseOr_orLoop_parseAnd_andLoop_parseNot_parsePrimary_argsLoop.induct)
  case (1 p)
  then show ?case by (simp add: parseExpression.simps)
next
  case (2 p)
  from "2.prems"(1) obtain a q where a: "parseAnd p = Inr (a, q)"
    and l: "orLoop a q = Inr (n, p')"
    by (auto simp: parseOr.simps [of p] split: sum.splits)
  have "tok_type (currentToken q) = TEnd \<longrightarrow> tok_type tok \<noteq> TAnd"
    using l "2.prems"(3) by (auto simp: orLoop.simps [of a q])
  from "2.hyps"(1) [OF a "2.prems"(2) this]
  have fq: "frameInv e q" and a': "parseAnd (resume t p) = Inr (a, resume t q)" by auto
  from "2.hyps"(2) [OF a refl l fq "2.prems"(3)] a'
  show ?case by (simp add: parseOr.simps [of "resume t p"])
next
  case (3 node p)
  show ?case
  proof (cases "tok_type (currentToken p) = TOr")
    case True
    with "3.prems"(1) obtain q right q' where c: "consume TOr p = Inr q"
      and a: "parseAnd q = Inr (right, q')"
      and l: "orLoop (SreLogicalNode OpOr node (Some right)) q' = Inr (n, p')"
      by (auto simp: orLoop.simps [of node p] split: sum.splits)
    from consume_frame [OF c "3.prems"(2) _ bd tt]
    have fq: "frameInv e q" and c': "consume TOr (resume t p) = Inr (resume t q)" by auto
    have "tok_type (currentToken q') = TEnd \<longrightarrow> tok_type tok \<noteq> TAnd"
      using l "3.prems"(3)
      by (auto simp: orLoop.simps [of "SreLogicalNode OpOr node (Some right)" q'])
    from "3.hyps"(1) [OF True c a fq this]
    have fq': "frameInv e q'" and a': "parseAnd (resume t q) = Inr (right, resume t q')"
      by auto
    from "3.hyps"(2) [OF True c a refl l fq' "3.prems"(3)] c' a' True
    show ?thesis by (simp add: orLoop.simps [of node "resume t p"] resume_tok)
  next
    case False
    with "3.prems"(1) have eq: "n = node" "p' = p"
      by (auto simp: orLoop.simps [of node p])
    have "tok_type (currentToken (resume t p)) \<noteq> TOr"
      using False "3.prems"(3) eq resume_tok [of p t] resume_End [OF _ tt, of p]
      by (cases "tok_type (currentToken p) = TEnd") auto
    with eq "3.prems"(2) show ?thesis by (simp add: orLoop.simps [of node "resume t p"])
  qed
next
  case (4 p)
  from "4.prems"(1) obtain a q where a: "parseNot p = Inr (a, q)"
    and l: "andLoop a q = Inr (n, p')"
    by (auto simp: parseAnd.simps [of p] split: sum.splits)
  from "4.hyps"(1) [OF a "4.prems"(2)]
  have fq: "frameInv e q" and a': "parseNot (resume t p) = Inr (a, resume t q)" by auto
  from "4.hyps"(2) [OF a refl l fq "4.prems"(3)] a'
  show ?case by (simp add: parseAnd.simps [of "resume t p"])
next
  case (5 node p)
  show ?case
  proof (cases "tok_type (currentToken p) = TAnd")
    case True
    with "5.prems"(1) obtain q right q' where c: "consume TAnd p = Inr q"
      and a: "parseNot q = Inr (right, q')"
      and l: "andLoop (SreLogicalNode OpAnd node (Some right)) q' = Inr (n, p')"
      by (auto simp: andLoop.simps [of node p] split: sum.splits)
    from consume_frame [OF c "5.prems"(2) _ bd tt]
    have fq: "frameInv e q" and c': "consume TAnd (resume t p) = Inr (resume t q)" by auto
    from "5.hyps"(1) [OF True c a fq]
    have fq': "frameInv e q'" and a': "parseNot (resume t q) = Inr (right, resume t q')"
      by auto
    from "5.hyps"(2) [OF True c a refl l fq' "5.prems"(3)] c' a' True
    show ?thesis by (simp add: andLoop.simps [of node "resume t p"] resume_tok)
  next
    case False
    with "5.prems"(1) have eq: "n = node" "p' = p"
      by (auto simp: andLoop.simps [of node p])
    have "tok_type (currentToken (resume t p)) \<noteq> TAnd"
      using False "5.prems"(3) eq resume_tok [of p t] resume_End [OF _ tt, of p]
      by (cases "tok_type (currentToken p) = TEnd") auto
    with eq "5.prems"(2) show ?thesis by (simp add: andLoop.simps [of node "resume t p"])
  qed
next
  case (6 p)
  show ?case
  proof (cases "tok_type (currentToken p) = TNot")
    case True
    with "6.prems"(1) obtain q operand where c: "consume TNot p = Inr q"
      and a: "parsePrimary q = Inr (operand, p')"
      and n: "n = SreLogicalNode OpNot operand None"
      by (auto simp: parseNot.simps [of p] split: sum.splits)
    from consume_frame [OF c "6.prems"(2) _ bd tt]
    have fq: "frameInv e q" and c': "consume TNot (resume t p) = Inr (resume t q)" by auto
    from "6.hyps"(1) [OF True c a fq] c' n True
    show ?thesis by (simp add: parseNot.simps [of "resume t p"] resume_tok)
  next
    case False
    with "6.prems"(1) have a: "parsePrimary p = Inr (n, p')"
      by (simp add: parseNot.simps [of p])
    then have ne: "tok_type (currentToken p) \<noteq> TEnd"
      by (auto simp: parsePrimary.simps [of p] split: if_splits)
    from "6.hyps"(2) [OF False a "6.prems"(2)] False ne
    show ?thesis by (simp add: parseNot.simps [of "resume t p"] resume_tok)
  qed
next
  case (7 p)
  have ne: "tok_type (currentToken p) \<noteq> TEnd"
    using "7.prems"(1) by (auto simp: parsePrimary.simps [of p] split: if_splits)
  note rt = resume_tok [OF ne, of t]
  consider (paren) "tok_type (currentToken p) = TLParen"
    | (ident) "tok_type (currentToken p) = TIdentifier"
    | (lit) "tok_type (currentToken p) = TStringLiteral"
    using "7.prems"(1) by (auto simp: parsePrimary.simps [of p] split: if_splits)
  then show ?case
  proof cases
    case paren
    with "7.prems"(1) obtain q q' where c: "consume TLParen p = Inr q"
      and a: "parseExpression q = Inr (n, q')"
      and c2: "consume TRParen q' = Inr p'"
      by (auto simp: parsePrimary.simps [of p] split: sum.splits)
    from consume_frame [OF c "7.prems"(2) _ bd tt]
    have fq: "frameInv e q" and c': "consume TLParen (resume t p) = Inr (resume t q)" by auto
    from c2 have "tok_type (currentToken q') \<noteq> TEnd"
      by (auto simp: consume_def split: if_splits)
    with "7.hyps"(1) [OF paren c a fq]
    have fq': "frameInv e q'" and a': "parseExpression (resume t q) = Inr (n, resume t q')"
      by auto
    from consume_frame [OF c2 fq' _ bd tt]
    have "frameInv e p'" and "consume TRParen (resume t q') = Inr (resume t p')" by auto
    with c' a' paren show ?thesis
      by (simp add: parsePrimary.simps [of "resume t p"] rt)
  next
    case ident
    from ident "7.prems"(1) obtain q where c: "consume TIdentifier p = Inr q"
      by (auto simp: parsePrimary.simps [of p] Let_def split: sum.splits)
    from consume_frame [OF c "7.prems"(2) _ bd tt]
    have fq: "frameInv e q"
      and c': "consume TIdentifier (resume t p) = Inr (resume t q)" by auto
    show ?thesis
    proof (cases "tok_type (currentToken q) = TLParen")
      case lpar: True
      with ident c "7.prems"(1) obtain q2 where c2: "consume TLParen q = Inr q2"
        by (auto simp: parsePrimary.simps [of p] Let_def split: sum.splits)
      from consume_frame [OF c2 fq _ bd tt]
      have fq2: "frameInv e q2"
        and c2': "consume TLParen (resume t q) = Inr (resume t q2)" by auto
      have rq: "currentToken (resume t q) = currentToken q"
        using lpar by (simp add: resume_tok)
      show ?thesis
      proof (cases "tok_type (currentToken q2) = TRParen")
        case True
        with ident c lpar c2 "7.prems"(1) have c3: "consume TRParen q2 = Inr p'"
          and n: "n = SreFunctionNode (tok_text (currentToken p)) []"
          by (auto simp: parsePrimary.simps [of p] Let_def split: sum.splits)
        from consume_frame [OF c3 fq2 _ bd tt]
        have "frameInv e p'" and "consume TRParen (resume t q2) = Inr (resume t p')" by auto
        with ident c' lpar rq c2' True n show ?thesis
          by (simp add: parsePrimary.simps [of "resume t p"] rt Let_def resume_tok)
      next
        case False
        with ident c lpar c2 "7.prems"(1) obtain arg q3 as q4
          where a: "parseExpression q2 = Inr (arg, q3)"
            and l: "argsLoop [arg] q3 = Inr (as, q4)"
            and c3: "consume TRParen q4 = Inr p'"
            and n: "n = SreFunctionNode (tok_text (currentToken p)) as"
          by (auto simp: parsePrimary.simps [of p] Let_def split: sum.splits)
        from c3 have ne4: "tok_type (currentToken q4) \<noteq> TEnd"
          by (auto simp: consume_def split: if_splits)
        have ne3: "tok_type (currentToken q3) \<noteq> TEnd"
          using l ne4 by (auto simp: argsLoop.simps [of "[arg]" q3] split: if_splits)
        have ne2: "tok_type (currentToken q2) \<noteq> TEnd"
          using a by (rule parseExpression_not_End)
        from "7.hyps"(2) [OF _ ident refl c lpar c2 False a fq2] ident ne3
        have fq3: "frameInv e q3"
          and a': "parseExpression (resume t q2) = Inr (arg, resume t q3)" by auto
        from "7.hyps"(3) [OF _ ident refl c lpar c2 False a refl l fq3 ne4] ident
        have fq4: "frameInv e q4"
          and l': "argsLoop [arg] (resume t q3) = Inr (as, resume t q4)" by auto
        from consume_frame [OF c3 fq4 _ bd tt]
        have "frameInv e p'" and "consume TRParen (resume t q4) = Inr (resume t p')" by auto
        with ident c' lpar rq c2' False ne2 a' l' n show ?thesis
          by (simp add: parsePrimary.simps [of "resume t p"] rt Let_def resume_tok)
      qed
    next
      case nolpar: False
      with ident c "7.prems"(1) have p': "p' = q"
        and n: "n = SreValueNode (stripVarName (tok_text (currentToken p)))
                      (CHR ''#'' \<in> set (tok_text (currentToken p)))"
        by (auto simp: parsePrimary.simps [of p] Let_def split: sum.splits)
      have "tok_type (currentToken (resume t q)) \<noteq> TLParen"
      proof (cases "tok_type (currentToken q) = TEnd")
        case True
        from c ident obtain tk v where nt: "nextToken (lexer p) = Inr (tk, v)"
          and q: "q = \<lparr>lexer = v, currentToken = tk\<rparr>"
          by (auto simp: consume_def split: sum.splits)
        from True q nextToken_End [OF nt] have "\<forall>c \<in> set (lexer p). isspace c" by simp
        with ident "7.prems"(2) have "endsWithIdentifier e" by (simp add: frameInv_def)
        with lp have "tok_type tok \<noteq> TLParen" by auto
        with True tt show ?thesis by (simp add: resume_End)
      next
        case False
        with nolpar show ?thesis by (simp add: resume_tok)
      qed
      with ident c' p' n fq show ?thesis
        by (simp add: parsePrimary.simps [of "resume t p"] rt Let_def)
    qed
  next
    case lit
    with "7.prems"(1) have c: "consume TStringLiteral p = Inr p'"
      and n: "n = SreValueNode (tok_text (currentToken p)) False"
      by (auto simp: parsePrimary.simps [of p] Let_def split: sum.splits)
    from consume_frame [OF c "7.prems"(2) _ bd tt]
    have "frameInv e p'"
      and "consume TStringLiteral (resume t p) = Inr (resume t p')" by auto
    with lit n show ?thesis
      by (simp add: parsePrimary.simps [of "resume t p"] rt Let_def)
  qed
next
  case (8 args p)
  show ?case
  proof (cases "tok_type (currentToken p) = TComma")
    case True
    with "8.prems"(1) obtain q arg q' where c: "consume TComma p = Inr q"
      and a: "parseExpression q = Inr (arg, q')"
      and l: "argsLoop (args @ [arg]) q' = Inr (ns, p')"
      by (auto simp: argsLoop.simps [of args p] split: sum.splits)
    from consume_frame [OF c "8.prems"(2) _ bd tt]
    have fq: "frameInv e q" and c': "consume TComma (resume t p) = Inr (resume t q)" by auto
    have "tok_type (currentToken q') \<noteq> TEnd"
      using l "8.prems"(3) by (auto simp: argsLoop.simps [of "args @ [arg]" q'] split: if_splits)
    with "8.hyps"(1) [OF True c a fq]
    have fq': "frameInv e q'" and a': "parseExpression (resume t q) = Inr (arg, resume t q')"
      by auto
    from "8.hyps"(2) [OF True c a refl l fq' "8.prems"(3)] c' a' True
    show ?thesis by (simp add: argsLoop.simps [of args "resume t p"] resume_tok)
  next
    case False
    with "8.prems"(1) have eq: "ns = args" "p' = p"
      by (auto simp: argsLoop.simps [of args p])
    with False "8.prems"(2,3) show ?thesis
      by (simp add: argsLoop.simps [of args "resume t p"] resume_tok)
  qed
qed

lemma SreParser_new_frame:
  assumes "SreParser_new e = Inr p" and "even (quotes e)" and "boundary e t"
    and "nextToken t = Inr (tok, r)"
  shows "frameInv e p \<and> SreParser_new (e @ t) = Inr (resume t p)"
proof -
  from assms(1) obtain tk v where nt: "nextToken e = Inr (tk, v)"
    and p: "p = \<lparr>lexer = v, currentToken = tk\<rparr>"
    by (auto simp: SreParser_new_def split: sum.splits)
  from nextToken_frame [OF nt assms(2) suffix_order.refl assms(3,4)] p
  show ?thesis by (simp add: SreParser_new_def)
qed

text \<open>
  C9. \<open>evaluate\<close> never looks at what follows the expression it has parsed. As stated for
  every trailing token other than \<open>and\<close> and \<open>or\<close>, this fails when the leading
  expression ends with an identifier and the trailing text starts with \<open>(\<close>: the parser
  then reads a call (see the counterexample below). What holds: let \<open>e\<close> be parsed as a
  complete expression, with its quotes paired, and let \<open>t\<close> start at a token boundary with
  a token that lexes, is neither \<open>and\<close> nor \<open>or\<close>, and is not \<open>(\<close> when \<open>e\<close> ends with an
  identifier; then \<open>evaluate\<close> on \<open>e\<close> followed by \<open>t\<close> returns what it returns on \<open>e\<close>
  alone, value or evaluation error, whatever else \<open>t\<close> holds.
\<close>

theorem trailing_input_is_ignored:
  assumes "SreParser_new e = Inr p" and "parseExpression p = Inr (root, p')"
    and "even (quotes e)" and "boundary e t"
    and "nextToken t = Inr (tok, r)"
    and "tok_type tok \<noteq> TAnd" and "tok_type tok \<noteq> TOr"
    and "tok_type tok = TLParen \<longrightarrow> \<not> endsWithIdentifier e"
  shows "evaluate eng (e @ t) ctx = evaluate eng e ctx"
proof -
  from SreParser_new_frame [OF assms(1,3,4,5)]
  have inv: "frameInv e p" and st: "SreParser_new (e @ t) = Inr (resume t p)" by auto
  from parse_frame(1) [OF assms(4,5,8) assms(2) inv] assms(6,7)
  have "parseExpression (resume t p) = Inr (root, resume t p')" by simp
  with st assms(1,2) show ?thesis by (simp add: evaluate_def)
qed

text \<open>
  The counterexample: \<open>#{a}\<close> alone is a complete expression with value \<open>true\<close>; followed by
  \<open>('y')\<close>, whose first token \<open>(\<close> lexes and is neither \<open>and\<close> nor \<open>or\<close>, it is parsed as
  a call of the function \<open>#{a}\<close>, and \<open>evaluate\<close> raises "Function not found".
\<close>

theorem call_after_identifier_counterexample:
  "SreParser_new ''#{a}''
     = Inr \<lparr>lexer = [], currentToken = \<lparr>tok_type = TIdentifier, tok_text = ''#{a}''\<rparr>\<rparr>
   \<and> parseExpression \<lparr>lexer = [], currentToken = \<lparr>tok_type = TIdentifier, tok_text = ''#{a}''\<rparr>\<rparr>
     = Inr (SreValueNode ''a'' True, \<lparr>lexer = [], currentToken = \<lparr>tok_type = TEnd, tok_text = []\<rparr>\<rparr>)
   \<and> evaluate SreRuleEngine_new ''#{a}'' (Map.empty(''a'' \<mapsto> ''hello'')) = Inr True
   \<and> nextToken '' ('y') '' = Inr (\<lparr>tok_type = TLParen, tok_text = ''(''\<rparr>, '''y') '')
   \<and> evaluate SreRuleEngine_new (''#{a}'' @ '' ('y') '') (Map.empty(''a'' \<mapsto> ''hello''))
     = Inl (FunctionNotFound ''#{a}'')"
  by (simp add: evaluate_def parse_simps lex_defs char_defs engine_defs)

theorem trailing_input_is_ignored_witness:
  "evaluate SreRuleEngine_new ([CHR 0x27, CHR ''x'', CHR 0x27] @ '' 'y' '') Map.empty
    = evaluate SreRuleEngine_new [CHR 0x27, CHR ''x'', CHR 0x27] Map.empty
   \<and> evaluate SreRuleEngine_new [CHR 0x27, CHR ''x'', CHR 0x27] Map.empty = Inr True"
proof
  show "evaluate SreRuleEngine_new ([CHR 0x27, CHR ''x'', CHR 0x27] @ '' 'y' '') Map.empty
    = evaluate SreRuleEngine_new [CHR 0x27, CHR ''x'', CHR 0x27] Map.empty"
  proof (rule trailing_input_is_ignored)
    show "SreParser_new [CHR 0x27, CHR ''x'', CHR 0x27]
      = Inr \<lparr>lexer = [], currentToken = \<lparr>tok_type = TStringLiteral, tok_text = ''x''\<rparr>\<rparr>"
      by (simp add: lex_defs char_defs)
    show "parseExpression \<lparr>lexer = [], currentToken = \<lparr>tok_type = TStringLiteral, tok_text = ''x''\<rparr>\<rparr>
      = Inr (SreValueNode ''x'' False,
            \<lparr>lexer = [], currentToken = \<lparr>tok_type = TEnd, tok_text = []\<rparr>\<rparr>)"
      by (simp add: parse_simps lex_defs char_defs)
    show "even (quotes [CHR 0x27, CHR ''x'', CHR 0x27])" by simp
    show "boundary [CHR 0x27, CHR ''x'', CHR 0x27] '' 'y' ''" by (simp add: boundary_def char_defs)
    show "nextToken '' 'y' '' = Inr (\<lparr>tok_type = TStringLiteral, tok_text = ''y''\<rparr>, '' '')"
      by (simp add: lex_defs char_defs)
  qed simp_all
  show "evaluate SreRuleEngine_new [CHR 0x27, CHR ''x'', CHR 0x27] Map.empty = Inr True"
    by (simp add: evaluate_def parse_simps lex_defs char_defs)
qed

section \<open>Precedence\<close>

lemma or_and_states:
  assumes "parseAnd p0 = Inr (a, p1)" and "tok_type (currentToken p1) = TOr"
    and "consume TOr p1 = Inr p2" and "parseNot p2 = Inr (b, p3)"
    and "tok_type (currentToken p3) = TAnd" and "consume TAnd p3 = Inr p4"
    and "parseNot p4 = Inr (c, p5)"
    and "tok_type (currentToken p5) \<noteq> TAnd" and "tok_type (currentToken p5) \<noteq> TOr"
  shows "parseExpression p0
    = Inr (SreLogicalNode OpOr a (Some (SreLogicalNode OpAnd b (Some c))), p5)"
proof -
  have "andLoop (SreLogicalNode OpAnd b (Some c)) p5
      = Inr (SreLogicalNode OpAnd b (Some c), p5)"
    using assms(8) by (simp add: andLoop.simps)
  then have "andLoop b p3 = Inr (SreLogicalNode OpAnd b (Some c), p5)"
    using assms(5,6,7) by (simp add: andLoop.simps [of b p3])
  then have "parseAnd p2 = Inr (SreLogicalNode OpAnd b (Some c), p5)"
    using assms(4) by (simp add: parseAnd.simps [of p2])
  moreover have "orLoop (SreLogicalNode OpOr a (Some (SreLogicalNode OpAnd b (Some c)))) p5
      = Inr (SreLogicalNode OpOr a (Some (SreLogicalNode OpAnd b (Some c))), p5)"
    using assms(9) by (simp add: orLoop.simps)
  ultimately have "orLoop a p1
      = Inr (SreLogicalNode OpOr a (Some (SreLogicalNode OpAnd b (Some c))), p5)"
    using assms(2,3) by (simp add: orLoop.simps [of a p1])
  with assms(1) show ?thesis
    by (simp add: parseExpression.simps parseOr.simps [of p0])
qed

lemma or_paren_and_states:
  assumes "parseAnd q0 = Inr (a, q1)" and "tok_type (currentToken q1) = TOr"
    and "consume TOr q1 = Inr q2" and "tok_type (currentToken q2) = TLParen"
    and "consume TLParen q2 = Inr q3" and "parseNot q3 = Inr (b, q4)"
    and "tok_type (currentToken q4) = TAnd" and "consume TAnd q4 = Inr q5"
    and "parseNot q5 = Inr (c, q6)" and "tok_type (currentToken q6) = TRParen"
    and "consume TRParen q6 = Inr q7"
    and "tok_type (currentToken q7) \<noteq> TAnd" and "tok_type (currentToken q7) \<noteq> TOr"
  shows "parseExpression q0
    = Inr (SreLogicalNode OpOr a (Some (SreLogicalNode OpAnd b (Some c))), q7)"
proof -
  let ?bc = "SreLogicalNode OpAnd b (Some c)"
  have "andLoop ?bc q6 = Inr (?bc, q6)"
    using assms(10) by (simp add: andLoop.simps)
  then have "andLoop b q4 = Inr (?bc, q6)"
    using assms(7,8,9) by (simp add: andLoop.simps [of b q4])
  then have "parseAnd q3 = Inr (?bc, q6)"
    using assms(6) by (simp add: parseAnd.simps [of q3])
  moreover have "orLoop ?bc q6 = Inr (?bc, q6)"
    using assms(10) by (simp add: orLoop.simps)
  ultimately have "parseExpression q3 = Inr (?bc, q6)"
    by (simp add: parseExpression.simps parseOr.simps [of q3])
  then have "parsePrimary q2 = Inr (?bc, q7)"
    using assms(4,5,11) by (simp add: parsePrimary.simps [of q2])
  then have "parseNot q2 = Inr (?bc, q7)"
    using assms(4) by (simp add: parseNot.simps [of q2])
  moreover have "andLoop ?bc q7 = Inr (?bc, q7)"
    using assms(12) by (simp add: andLoop.simps)
  ultimately have "parseAnd q2 = Inr (?bc, q7)"
    by (simp add: parseAnd.simps [of q2])
  moreover have "orLoop (SreLogicalNode OpOr a (Some ?bc)) q7
      = Inr (SreLogicalNode OpOr a (Some ?bc), q7)"
    using assms(13) by (simp add: orLoop.simps)
  ultimately have "orLoop a q1 = Inr (SreLogicalNode OpOr a (Some ?bc), q7)"
    using assms(2,3) by (simp add: orLoop.simps [of a q1])
  with assms(1) show ?thesis
    by (simp add: parseExpression.simps parseOr.simps [of q0])
qed

lemma not_and_states:
  assumes "tok_type (currentToken p0) = TNot" and "consume TNot p0 = Inr p1"
    and "parsePrimary p1 = Inr (a, p2)" and "tok_type (currentToken p2) = TAnd"
    and "consume TAnd p2 = Inr p3" and "parseNot p3 = Inr (b, p4)"
    and "tok_type (currentToken p4) \<noteq> TAnd" and "tok_type (currentToken p4) \<noteq> TOr"
  shows "parseExpression p0
    = Inr (SreLogicalNode OpAnd (SreLogicalNode OpNot a None) (Some b), p4)"
proof -
  let ?na = "SreLogicalNode OpNot a None"
  have "parseNot p0 = Inr (?na, p2)"
    using assms(1,2,3) by (simp add: parseNot.simps [of p0])
  moreover have "andLoop (SreLogicalNode OpAnd ?na (Some b)) p4
      = Inr (SreLogicalNode OpAnd ?na (Some b), p4)"
    using assms(7) by (simp add: andLoop.simps)
  then have "andLoop ?na p2 = Inr (SreLogicalNode OpAnd ?na (Some b), p4)"
    using assms(4,5,6) by (simp add: andLoop.simps [of ?na p2])
  ultimately have "parseAnd p0 = Inr (SreLogicalNode OpAnd ?na (Some b), p4)"
    by (simp add: parseAnd.simps [of p0])
  moreover have "orLoop (SreLogicalNode OpAnd ?na (Some b)) p4
      = Inr (SreLogicalNode OpAnd ?na (Some b), p4)"
    using assms(8) by (simp add: orLoop.simps)
  ultimately show ?thesis
    by (simp add: parseExpression.simps parseOr.simps [of p0])
qed

lemma paren_not_and_states:
  assumes "tok_type (currentToken q0) = TLParen" and "consume TLParen q0 = Inr q1"
    and "tok_type (currentToken q1) = TNot" and "consume TNot q1 = Inr q2"
    and "parsePrimary q2 = Inr (a, q3)" and "tok_type (currentToken q3) = TRParen"
    and "consume TRParen q3 = Inr q4" and "tok_type (currentToken q4) = TAnd"
    and "consume TAnd q4 = Inr q5" and "parseNot q5 = Inr (b, q6)"
    and "tok_type (currentToken q6) \<noteq> TAnd" and "tok_type (currentToken q6) \<noteq> TOr"
  shows "parseExpression q0
    = Inr (SreLogicalNode OpAnd (SreLogicalNode OpNot a None) (Some b), q6)"
proof -
  let ?na = "SreLogicalNode OpNot a None"
  have "parseNot q1 = Inr (?na, q3)"
    using assms(3,4,5) by (simp add: parseNot.simps [of q1])
  moreover have "andLoop ?na q3 = Inr (?na, q3)"
    using assms(6) by (simp add: andLoop.simps)
  ultimately have "parseAnd q1 = Inr (?na, q3)"
    by (simp add: parseAnd.simps [of q1])
  moreover have "orLoop ?na q3 = Inr (?na, q3)"
    using assms(6) by (simp add: orLoop.simps)
  ultimately have "parseExpression q1 = Inr (?na, q3)"
    by (simp add: parseExpression.simps parseOr.simps [of q1])
  then have "parsePrimary q0 = Inr (?na, q4)"
    using assms(1,2,7) by (simp add: parsePrimary.simps [of q0])
  then have "parseNot q0 = Inr (?na, q4)"
    using assms(1) by (simp add: parseNot.simps [of q0])
  moreover have "andLoop (SreLogicalNode OpAnd ?na (Some b)) q6
      = Inr (SreLogicalNode OpAnd ?na (Some b), q6)"
    using assms(11) by (simp add: andLoop.simps)
  then have "andLoop ?na q4 = Inr (SreLogicalNode OpAnd ?na (Some b), q6)"
    using assms(8,9,10) by (simp add: andLoop.simps [of ?na q4])
  ultimately have "parseAnd q0 = Inr (SreLogicalNode OpAnd ?na (Some b), q6)"
    by (simp add: parseAnd.simps [of q0])
  moreover have "orLoop (SreLogicalNode OpAnd ?na (Some b)) q6
      = Inr (SreLogicalNode OpAnd ?na (Some b), q6)"
    using assms(12) by (simp add: orLoop.simps)
  ultimately show ?thesis
    by (simp add: parseExpression.simps parseOr.simps [of q0])
qed

lemma boundary_hd: "t = [] \<or> \<not> isIdentChar (hd t) \<Longrightarrow> boundary s t"
  by (auto simp: boundary_def)

lemma boundary_seps:
  "boundary s ('' or '' @ x)" "boundary s ('' or ('' @ x)" "boundary s ('' and '' @ x)"
  "boundary s ('') and '' @ x)" "boundary s '')''"
  by (rule boundary_hd, simp add: char_defs)+

lemma consume_eq_new:
  "tok_type (currentToken p) = ty \<Longrightarrow> consume ty p = SreParser_new (lexer p)"
  by (simp add: consume_def SreParser_new_def)

lemma SreParser_new_space: "SreParser_new (CHR '' '' # s) = SreParser_new s"
  using nextToken_skip [of "[CHR '' '']" s]
  by (simp add: SreParser_new_def isspace_def)

lemma phrase_cases:
  assumes "phrase f s = Some n"
  obtains p p' where "SreParser_new s = Inr p" and "f p = Inr (n, p')"
    and "tok_type (currentToken p') = TEnd" and "even (quotes s)"
  using assms by (auto simp: phrase_def split: sum.splits if_splits)

lemma resume_at_End:
  "tok_type (currentToken p) = TEnd \<Longrightarrow> nextToken t = Inr (tok, r) \<Longrightarrow>
   resume t p = \<lparr>lexer = r, currentToken = tok\<rparr>"
  by (simp add: resume_def)

lemma phrase_frame_And:
  assumes "phrase parseAnd s = Some n" and "boundary s t"
    and "nextToken t = Inr (tok, r)"
    and "tok_type tok \<noteq> TAnd" and "tok_type tok \<noteq> TLParen"
  obtains p where "SreParser_new (s @ t) = Inr p"
    and "parseAnd p = Inr (n, \<lparr>lexer = r, currentToken = tok\<rparr>)"
proof -
  from assms(1) obtain p p' where p: "SreParser_new s = Inr p" and f: "parseAnd p = Inr (n, p')"
    and e: "tok_type (currentToken p') = TEnd" and q: "even (quotes s)"
    by (rule phrase_cases)
  from SreParser_new_frame [OF p q assms(2,3)]
  have inv: "frameInv s p" and st: "SreParser_new (s @ t) = Inr (resume t p)" by auto
  from parse_frame(4) [OF assms(2,3) _ f inv] assms(4,5)
  have "parseAnd (resume t p) = Inr (n, resume t p')" by simp
  with st resume_at_End [OF e assms(3)] that show ?thesis by simp
qed

lemma phrase_frame_Not:
  assumes "phrase parseNot s = Some n" and "boundary s t"
    and "nextToken t = Inr (tok, r)" and "tok_type tok \<noteq> TLParen"
  obtains p where "SreParser_new (s @ t) = Inr p"
    and "parseNot p = Inr (n, \<lparr>lexer = r, currentToken = tok\<rparr>)"
proof -
  from assms(1) obtain p p' where p: "SreParser_new s = Inr p" and f: "parseNot p = Inr (n, p')"
    and e: "tok_type (currentToken p') = TEnd" and q: "even (quotes s)"
    by (rule phrase_cases)
  from SreParser_new_frame [OF p q assms(2,3)]
  have inv: "frameInv s p" and st: "SreParser_new (s @ t) = Inr (resume t p)" by auto
  from parse_frame(6) [OF assms(2,3) _ f inv] assms(4)
  have "parseNot (resume t p) = Inr (n, resume t p')" by simp
  with st resume_at_End [OF e assms(3)] that show ?thesis by simp
qed

lemma phrase_frame_Primary:
  assumes "phrase parsePrimary s = Some n" and "boundary s t"
    and "nextToken t = Inr (tok, r)" and "tok_type tok \<noteq> TLParen"
  obtains p where "SreParser_new (s @ t) = Inr p"
    and "parsePrimary p = Inr (n, \<lparr>lexer = r, currentToken = tok\<rparr>)"
proof -
  from assms(1) obtain p p' where p: "SreParser_new s = Inr p"
    and f: "parsePrimary p = Inr (n, p')"
    and e: "tok_type (currentToken p') = TEnd" and q: "even (quotes s)"
    by (rule phrase_cases)
  from SreParser_new_frame [OF p q assms(2,3)]
  have inv: "frameInv s p" and st: "SreParser_new (s @ t) = Inr (resume t p)" by auto
  from parse_frame(7) [OF assms(2,3) _ f inv] assms(4)
  have "parsePrimary (resume t p) = Inr (n, resume t p')" by simp
  with st resume_at_End [OF e assms(3)] that show ?thesis by simp
qed

lemma evaluate_phrase:
  "phrase parseExpression s = Some root \<Longrightarrow>
   evaluate eng s ctx = evalBool ctx (sre_functions eng) root"
  by (auto simp: phrase_def evaluate_def split: sum.splits if_splits)

lemma nextToken_nil: "nextToken [] = Inr (\<lparr>tok_type = TEnd, tok_text = []\<rparr>, [])"
  by (simp add: nextToken_def skipWhitespace_def)

lemma nextToken_or: "nextToken ('' or '' @ x) = Inr (\<lparr>tok_type = TOr, tok_text = ''or''\<rparr>, CHR '' '' # x)"
  by (simp add: lex_defs char_defs)

lemma nextToken_or_paren:
  "nextToken ('' or ('' @ x) = Inr (\<lparr>tok_type = TOr, tok_text = ''or''\<rparr>, '' ('' @ x)"
  by (simp add: lex_defs char_defs)

lemma nextToken_and: "nextToken ('' and '' @ x) = Inr (\<lparr>tok_type = TAnd, tok_text = ''and''\<rparr>, CHR '' '' # x)"
  by (simp add: lex_defs char_defs)

lemma nextToken_paren_and:
  "nextToken ('') and '' @ x) = Inr (\<lparr>tok_type = TRParen, tok_text = '')''\<rparr>, '' and '' @ x)"
  by (simp add: lex_defs char_defs)

lemma nextToken_rparen: "nextToken '')'' = Inr (\<lparr>tok_type = TRParen, tok_text = '')''\<rparr>, [])"
  by (simp add: lex_defs char_defs)

lemma SreParser_new_lparen:
  "SreParser_new ('' ('' @ x) = Inr \<lparr>lexer = x, currentToken = \<lparr>tok_type = TLParen, tok_text = ''(''\<rparr>\<rparr>"
  by (simp add: lex_defs char_defs)

lemma SreParser_new_not:
  "SreParser_new (''not '' @ x)
    = Inr \<lparr>lexer = CHR '' '' # x, currentToken = \<lparr>tok_type = TNot, tok_text = ''not''\<rparr>\<rparr>"
  by (simp add: lex_defs char_defs)

lemma SreParser_new_paren_not:
  "SreParser_new (''(not '' @ x)
    = Inr \<lparr>lexer = ''not '' @ x, currentToken = \<lparr>tok_type = TLParen, tok_text = ''(''\<rparr>\<rparr>"
  by (simp add: lex_defs char_defs)

lemma not_ident_sep: "\<not> isIdentChar (CHR '' '')" "\<not> isIdentChar (CHR '')'')"
  by (simp_all add: char_defs)

lemma or_and_phrase:
  assumes A: "phrase parseAnd A = Some a" and B: "phrase parseNot B = Some b"
    and C: "phrase parseNot C = Some c"
  shows "phrase parseExpression (A @ '' or '' @ B @ '' and '' @ C)
    = Some (SreLogicalNode OpOr a (Some (SreLogicalNode OpAnd b (Some c))))"
proof -
  let ?t2 = "'' and '' @ C"
  let ?t1 = "'' or '' @ B @ ?t2"
  from phrase_frame_And [OF A boundary_seps(1) nextToken_or [of "B @ ?t2"]]
  obtain p0 where s0: "SreParser_new (A @ ?t1) = Inr p0"
    and a: "parseAnd p0 = Inr (a, \<lparr>lexer = CHR '' '' # B @ ?t2,
        currentToken = \<lparr>tok_type = TOr, tok_text = ''or''\<rparr>\<rparr>)"
    by auto
  from phrase_frame_Not [OF B boundary_seps(3) nextToken_and [of C]]
  obtain p2 where s2: "SreParser_new (B @ ?t2) = Inr p2"
    and b: "parseNot p2 = Inr (b, \<lparr>lexer = CHR '' '' # C,
        currentToken = \<lparr>tok_type = TAnd, tok_text = ''and''\<rparr>\<rparr>)"
    by auto
  from C obtain p4 p5 where s4: "SreParser_new C = Inr p4" and c: "parseNot p4 = Inr (c, p5)"
    and e: "tok_type (currentToken p5) = TEnd"
    by (rule phrase_cases)
  have "parseExpression p0
      = Inr (SreLogicalNode OpOr a (Some (SreLogicalNode OpAnd b (Some c))), p5)"
  proof (rule or_and_states [OF a _ _ b _ _ c])
    show "consume TOr \<lparr>lexer = CHR '' '' # B @ ?t2,
        currentToken = \<lparr>tok_type = TOr, tok_text = ''or''\<rparr>\<rparr> = Inr p2"
      using s2 by (simp add: consume_eq_new SreParser_new_space)
    show "consume TAnd \<lparr>lexer = CHR '' '' # C,
        currentToken = \<lparr>tok_type = TAnd, tok_text = ''and''\<rparr>\<rparr> = Inr p4"
      using s4 by (simp add: consume_eq_new SreParser_new_space)
  qed (simp_all add: e)
  moreover have "even (quotes (A @ ?t1))"
    using A B C by (auto elim!: phrase_cases)
  ultimately show ?thesis using s0 e by (simp add: phrase_def)
qed

lemma or_paren_and_phrase:
  assumes A: "phrase parseAnd A = Some a" and B: "phrase parseNot B = Some b"
    and C: "phrase parseNot C = Some c"
  shows "phrase parseExpression (A @ '' or ('' @ B @ '' and '' @ C @ '')'')
    = Some (SreLogicalNode OpOr a (Some (SreLogicalNode OpAnd b (Some c))))"
proof -
  let ?t3 = "'')''"
  let ?t2 = "'' and '' @ C @ ?t3"
  let ?t1 = "'' or ('' @ B @ ?t2"
  from phrase_frame_And [OF A boundary_seps(2)
      nextToken_or_paren [of "B @ ?t2"]]
  obtain q0 where s0: "SreParser_new (A @ ?t1) = Inr q0"
    and a: "parseAnd q0 = Inr (a, \<lparr>lexer = '' ('' @ B @ ?t2,
        currentToken = \<lparr>tok_type = TOr, tok_text = ''or''\<rparr>\<rparr>)"
    by auto
  from phrase_frame_Not [OF B boundary_seps(3) nextToken_and [of "C @ ?t3"]]
  obtain q3 where s3: "SreParser_new (B @ ?t2) = Inr q3"
    and b: "parseNot q3 = Inr (b, \<lparr>lexer = CHR '' '' # C @ ?t3,
        currentToken = \<lparr>tok_type = TAnd, tok_text = ''and''\<rparr>\<rparr>)"
    by auto
  from phrase_frame_Not [OF C boundary_seps(5) nextToken_rparen]
  obtain q5 where s5: "SreParser_new (C @ ?t3) = Inr q5"
    and c: "parseNot q5 = Inr (c, \<lparr>lexer = [],
        currentToken = \<lparr>tok_type = TRParen, tok_text = '')''\<rparr>\<rparr>)"
    by auto
  let ?q7 = "\<lparr>lexer = [], currentToken = \<lparr>tok_type = TEnd, tok_text = []\<rparr>\<rparr>"
  have "parseExpression q0
      = Inr (SreLogicalNode OpOr a (Some (SreLogicalNode OpAnd b (Some c))), ?q7)"
  proof (rule or_paren_and_states [OF a _ _ _ _ b _ _ c])
    show "consume TOr \<lparr>lexer = '' ('' @ B @ ?t2,
        currentToken = \<lparr>tok_type = TOr, tok_text = ''or''\<rparr>\<rparr>
      = Inr \<lparr>lexer = B @ ?t2, currentToken = \<lparr>tok_type = TLParen, tok_text = ''(''\<rparr>\<rparr>"
      using SreParser_new_lparen [of "B @ ?t2"] by (simp add: consume_eq_new)
    show "consume TLParen \<lparr>lexer = B @ ?t2,
        currentToken = \<lparr>tok_type = TLParen, tok_text = ''(''\<rparr>\<rparr> = Inr q3"
      using s3 by (simp add: consume_eq_new)
    show "consume TAnd \<lparr>lexer = CHR '' '' # C @ ?t3,
        currentToken = \<lparr>tok_type = TAnd, tok_text = ''and''\<rparr>\<rparr> = Inr q5"
      using s5 by (simp add: consume_eq_new SreParser_new_space)
    show "consume TRParen \<lparr>lexer = [],
        currentToken = \<lparr>tok_type = TRParen, tok_text = '')''\<rparr>\<rparr> = Inr ?q7"
      by (simp add: consume_def nextToken_nil)
  qed simp_all
  moreover have "even (quotes (A @ ?t1))"
    using A B C by (auto elim!: phrase_cases)
  ultimately show ?thesis using s0 by (simp add: phrase_def)
qed

lemma not_and_phrase:
  assumes D: "phrase parsePrimary D = Some d" and B: "phrase parseNot B = Some b"
  shows "phrase parseExpression (''not '' @ D @ '' and '' @ B)
    = Some (SreLogicalNode OpAnd (SreLogicalNode OpNot d None) (Some b))"
proof -
  let ?t1 = "'' and '' @ B"
  let ?p0 = "\<lparr>lexer = CHR '' '' # D @ ?t1,
    currentToken = \<lparr>tok_type = TNot, tok_text = ''not''\<rparr>\<rparr>"
  have s0: "SreParser_new (''not '' @ D @ ?t1) = Inr ?p0"
    by (rule SreParser_new_not)
  from phrase_frame_Primary [OF D boundary_seps(3) nextToken_and [of B]]
  obtain p1 where s1: "SreParser_new (D @ ?t1) = Inr p1"
    and d: "parsePrimary p1 = Inr (d, \<lparr>lexer = CHR '' '' # B,
        currentToken = \<lparr>tok_type = TAnd, tok_text = ''and''\<rparr>\<rparr>)"
    by auto
  from B obtain p3 p4 where s3: "SreParser_new B = Inr p3" and b: "parseNot p3 = Inr (b, p4)"
    and e: "tok_type (currentToken p4) = TEnd"
    by (rule phrase_cases)
  have "parseExpression ?p0
      = Inr (SreLogicalNode OpAnd (SreLogicalNode OpNot d None) (Some b), p4)"
  proof (rule not_and_states [OF _ _ d _ _ b])
    show "consume TNot ?p0 = Inr p1"
      using s1 by (simp add: consume_eq_new SreParser_new_space)
    show "consume TAnd \<lparr>lexer = CHR '' '' # B,
        currentToken = \<lparr>tok_type = TAnd, tok_text = ''and''\<rparr>\<rparr> = Inr p3"
      using s3 by (simp add: consume_eq_new SreParser_new_space)
  qed (simp_all add: e)
  moreover have "even (quotes (''not '' @ D @ ?t1))"
    using D B by (auto elim!: phrase_cases)
  ultimately show ?thesis using s0 e by (simp add: phrase_def)
qed

lemma paren_not_and_phrase:
  assumes D: "phrase parsePrimary D = Some d" and B: "phrase parseNot B = Some b"
  shows "phrase parseExpression (''(not '' @ D @ '') and '' @ B)
    = Some (SreLogicalNode OpAnd (SreLogicalNode OpNot d None) (Some b))"
proof -
  let ?t1 = "'') and '' @ B"
  let ?q0 = "\<lparr>lexer = ''not '' @ D @ ?t1,
    currentToken = \<lparr>tok_type = TLParen, tok_text = ''(''\<rparr>\<rparr>"
  let ?q1 = "\<lparr>lexer = CHR '' '' # D @ ?t1,
    currentToken = \<lparr>tok_type = TNot, tok_text = ''not''\<rparr>\<rparr>"
  have s0: "SreParser_new (''(not '' @ D @ ?t1) = Inr ?q0"
    by (rule SreParser_new_paren_not)
  from phrase_frame_Primary [OF D boundary_seps(4) nextToken_paren_and [of B]]
  obtain q2 where s2: "SreParser_new (D @ ?t1) = Inr q2"
    and d: "parsePrimary q2 = Inr (d, \<lparr>lexer = '' and '' @ B,
        currentToken = \<lparr>tok_type = TRParen, tok_text = '')''\<rparr>\<rparr>)"
    by auto
  from B obtain q5 q6 where s5: "SreParser_new B = Inr q5" and b: "parseNot q5 = Inr (b, q6)"
    and e: "tok_type (currentToken q6) = TEnd"
    by (rule phrase_cases)
  have "parseExpression ?q0
      = Inr (SreLogicalNode OpAnd (SreLogicalNode OpNot d None) (Some b), q6)"
  proof (rule paren_not_and_states [OF _ _ _ _ d _ _ _ _ b])
    show "consume TLParen ?q0 = Inr ?q1"
      using SreParser_new_not [of "D @ ?t1"] by (simp add: consume_eq_new)
    show "consume TNot ?q1 = Inr q2"
      using s2 by (simp add: consume_eq_new SreParser_new_space)
    show "consume TRParen \<lparr>lexer = '' and '' @ B,
        currentToken = \<lparr>tok_type = TRParen, tok_text = '')''\<rparr>\<rparr>
      = Inr \<lparr>lexer = CHR '' '' # B, currentToken = \<lparr>tok_type = TAnd, tok_text = ''and''\<rparr>\<rparr>"
      using nextToken_and [of B] by (simp add: consume_def)
    show "consume TAnd \<lparr>lexer = CHR '' '' # B,
        currentToken = \<lparr>tok_type = TAnd, tok_text = ''and''\<rparr>\<rparr> = Inr q5"
      using s5 by (simp add: consume_eq_new SreParser_new_space)
  qed (simp_all add: e)
  moreover have "even (quotes (''(not '' @ D @ ?t1))"
    using D B by (auto elim!: phrase_cases)
  ultimately show ?thesis using s0 e by (simp add: phrase_def)
qed

text \<open>
  C2. Precedence, for operands \<open>A\<close>, \<open>B\<close>, \<open>C\<close> of the grammar: when \<open>A\<close> is a complete phrase
  of the \<open>and\<close> level with tree \<open>a\<close>, and \<open>B\<close>, \<open>C\<close> complete phrases of the \<open>not\<close> level with
  trees \<open>b\<close>, \<open>c\<close>, the inputs \<open>A or B and C\<close> and \<open>A or (B and C)\<close> are both parsed to the
  tree \<open>Or a (And b c)\<close>; when \<open>D\<close> is a complete primary with tree \<open>d\<close> and \<open>E\<close> a complete
  phrase of the \<open>not\<close> level with tree \<open>e\<close>, the inputs \<open>not D and E\<close> and \<open>(not D) and E\<close>
  are both parsed to \<open>And (Not d) e\<close>. So \<open>evaluate\<close> agrees on each pair, under every
  context and registry.
\<close>

theorem precedence_of_or_and_not:
  "(phrase parseAnd A = Some a \<and> phrase parseNot B = Some b \<and> phrase parseNot C = Some c
    \<longrightarrow> phrase parseExpression (A @ '' or '' @ B @ '' and '' @ C)
          = Some (SreLogicalNode OpOr a (Some (SreLogicalNode OpAnd b (Some c))))
        \<and> phrase parseExpression (A @ '' or ('' @ B @ '' and '' @ C @ '')'')
          = Some (SreLogicalNode OpOr a (Some (SreLogicalNode OpAnd b (Some c))))
        \<and> evaluate eng (A @ '' or '' @ B @ '' and '' @ C) ctx
          = evaluate eng (A @ '' or ('' @ B @ '' and '' @ C @ '')'') ctx)
   \<and> (phrase parsePrimary D = Some d \<and> phrase parseNot E = Some e
    \<longrightarrow> phrase parseExpression (''not '' @ D @ '' and '' @ E)
          = Some (SreLogicalNode OpAnd (SreLogicalNode OpNot d None) (Some e))
        \<and> phrase parseExpression (''(not '' @ D @ '') and '' @ E)
          = Some (SreLogicalNode OpAnd (SreLogicalNode OpNot d None) (Some e))
        \<and> evaluate eng (''not '' @ D @ '' and '' @ E) ctx
          = evaluate eng (''(not '' @ D @ '') and '' @ E) ctx)"
proof (intro conjI impI)
  assume h: "phrase parseAnd A = Some a \<and> phrase parseNot B = Some b \<and> phrase parseNot C = Some c"
  then have 1: "phrase parseExpression (A @ '' or '' @ B @ '' and '' @ C)
      = Some (SreLogicalNode OpOr a (Some (SreLogicalNode OpAnd b (Some c))))"
    by (intro or_and_phrase) simp_all
  from h have 2: "phrase parseExpression (A @ '' or ('' @ B @ '' and '' @ C @ '')'')
      = Some (SreLogicalNode OpOr a (Some (SreLogicalNode OpAnd b (Some c))))"
    by (intro or_paren_and_phrase) simp_all
  show "phrase parseExpression (A @ '' or '' @ B @ '' and '' @ C)
      = Some (SreLogicalNode OpOr a (Some (SreLogicalNode OpAnd b (Some c))))"
    by (rule 1)
  show "phrase parseExpression (A @ '' or ('' @ B @ '' and '' @ C @ '')'')
      = Some (SreLogicalNode OpOr a (Some (SreLogicalNode OpAnd b (Some c))))"
    by (rule 2)
  show "evaluate eng (A @ '' or '' @ B @ '' and '' @ C) ctx
      = evaluate eng (A @ '' or ('' @ B @ '' and '' @ C @ '')'') ctx"
    by (simp only: evaluate_phrase [OF 1] evaluate_phrase [OF 2])
next
  assume h: "phrase parsePrimary D = Some d \<and> phrase parseNot E = Some e"
  then have 1: "phrase parseExpression (''not '' @ D @ '' and '' @ E)
      = Some (SreLogicalNode OpAnd (SreLogicalNode OpNot d None) (Some e))"
    by (intro not_and_phrase) simp_all
  from h have 2: "phrase parseExpression (''(not '' @ D @ '') and '' @ E)
      = Some (SreLogicalNode OpAnd (SreLogicalNode OpNot d None) (Some e))"
    by (intro paren_not_and_phrase) simp_all
  show "phrase parseExpression (''not '' @ D @ '' and '' @ E)
      = Some (SreLogicalNode OpAnd (SreLogicalNode OpNot d None) (Some e))"
    by (rule 1)
  show "phrase parseExpression (''(not '' @ D @ '') and '' @ E)
      = Some (SreLogicalNode OpAnd (SreLogicalNode OpNot d None) (Some e))"
    by (rule 2)
  show "evaluate eng (''not '' @ D @ '' and '' @ E) ctx
      = evaluate eng (''(not '' @ D @ '') and '' @ E) ctx"
    by (simp only: evaluate_phrase [OF 1] evaluate_phrase [OF 2])
qed

theorem precedence_of_or_and_not_witness:
  "phrase parseExpression (''p and q'' @ '' or '' @ ''not r'' @ '' and '' @ ''contains(s, 't')'')
     = Some (SreLogicalNode OpOr
         (SreLogicalNode OpAnd (SreValueNode ''p'' False) (Some (SreValueNode ''q'' False)))
         (Some (SreLogicalNode OpAnd (SreLogicalNode OpNot (SreValueNode ''r'' False) None)
            (Some (SreFunctionNode ''contains''
               [SreValueNode ''s'' False, SreValueNode ''t'' False])))))
   \<and> evaluate SreRuleEngine_new
        (''p and q'' @ '' or '' @ ''not r'' @ '' and '' @ ''contains(s, 't')'') Map.empty
     = evaluate SreRuleEngine_new
        (''p and q'' @ '' or ('' @ ''not r'' @ '' and '' @ ''contains(s, 't')'' @ '')'') Map.empty
   \<and> phrase parseExpression (''not '' @ ''(x or #{y})'' @ '' and '' @ ''not z'')
     = Some (SreLogicalNode OpAnd
         (SreLogicalNode OpNot
            (SreLogicalNode OpOr (SreValueNode ''x'' False) (Some (SreValueNode ''y'' True))) None)
         (Some (SreLogicalNode OpNot (SreValueNode ''z'' False) None)))
   \<and> evaluate SreRuleEngine_new (''not '' @ ''(x or #{y})'' @ '' and '' @ ''not z'') Map.empty
     = evaluate SreRuleEngine_new (''(not '' @ ''(x or #{y})'' @ '') and '' @ ''not z'') Map.empty"
proof -
  have A: "phrase parseAnd ''p and q''
      = Some (SreLogicalNode OpAnd (SreValueNode ''p'' False) (Some (SreValueNode ''q'' False)))"
    by (simp add: phrase_def parse_simps lex_defs char_defs)
  have B: "phrase parseNot ''not r'' = Some (SreLogicalNode OpNot (SreValueNode ''r'' False) None)"
    by (simp add: phrase_def parse_simps lex_defs char_defs)
  have C: "phrase parseNot ''contains(s, 't')''
      = Some (SreFunctionNode ''contains'' [SreValueNode ''s'' False, SreValueNode ''t'' False])"
    by (simp add: phrase_def parse_simps lex_defs char_defs)
  have D: "phrase parsePrimary ''(x or #{y})''
      = Some (SreLogicalNode OpOr (SreValueNode ''x'' False) (Some (SreValueNode ''y'' True)))"
    by (simp add: phrase_def parse_simps lex_defs char_defs)
  have E: "phrase parseNot ''not z'' = Some (SreLogicalNode OpNot (SreValueNode ''z'' False) None)"
    by (simp add: phrase_def parse_simps lex_defs char_defs)
  from A B C D E show ?thesis
    using precedence_of_or_and_not [of "''p and q''" _ "''not r''" _ "''contains(s, 't')''" _ SreRuleEngine_new
        Map.empty "''(x or #{y})''" _ "''not z''"]
    by simp
qed

section \<open>Casing of keywords and function names\<close>

termination ciLex
  apply (relation "measure (\<lambda>(u, u'). length u)")
   apply simp
  using nextToken_length apply fastforce
  done

declare ciLex.simps [simp del]

lemma ciLex_refl [simp]: "ciLex u u"
  by (simp add: ciLex.simps)

lemma ciTok_refl [simp]: "ciTok tk v tk v"
  by (simp add: ciTok_def)

lemma ciState_type: "ciState p q \<Longrightarrow> tok_type (currentToken q) = tok_type (currentToken p)"
  by (simp add: ciState_def ciTok_def)

lemma consume_sim:
  assumes "ciState p q"
  shows "(\<exists>e. consume ty p = Inl e \<and> consume ty q = Inl e)
    \<or> (\<exists>p' q'. consume ty p = Inr p' \<and> consume ty q = Inr q' \<and> ciState p' q')"
proof (cases "tok_type (currentToken p) = ty")
  case False
  with ciState_type [OF assms] show ?thesis by (simp add: consume_def)
next
  case True
  with ciState_type [OF assms] have tq: "tok_type (currentToken q) = ty" by simp
  from assms have cl: "ciLex (lexer p) (lexer q)" by (simp add: ciState_def)
  show ?thesis
  proof (cases "lexer p = lexer q")
    case eq: True
    show ?thesis
    proof (cases "nextToken (lexer p)")
      case (Inl e)
      with True tq eq show ?thesis by (simp add: consume_def)
    next
      case (Inr x)
      with True tq eq show ?thesis
        by (cases x) (simp add: consume_def ciState_def)
    qed
  next
    case ne: False
    with cl have c: "case nextToken (lexer p) of
        Inl e \<Rightarrow> (case nextToken (lexer q) of Inl e' \<Rightarrow> e = e' | Inr b \<Rightarrow> False)
      | Inr (tk, v) \<Rightarrow>
          (case nextToken (lexer q) of
             Inl e' \<Rightarrow> False
           | Inr (tk', v') \<Rightarrow>
               if tok_type tk = TEnd then tok_type tk' = TEnd
               else if ciTok tk v tk' v' then ciLex v v'
               else False)"
      by (simp add: ciLex.simps [of "lexer p" "lexer q"])
    show ?thesis
    proof (cases "nextToken (lexer p)")
      case (Inl e)
      with c have "nextToken (lexer q) = Inl e"
        by (cases "nextToken (lexer q)") auto
      with Inl True tq show ?thesis by (simp add: consume_def)
    next
      case (Inr a)
      then obtain tk v where n1: "nextToken (lexer p) = Inr (tk, v)" by (cases a) simp
      with c obtain tk' v' where n2: "nextToken (lexer q) = Inr (tk', v')"
        by (cases "nextToken (lexer q)") auto
      from c n1 n2
      have r: "if tok_type tk = TEnd then tok_type tk' = TEnd
          else ciTok tk v tk' v' \<and> ciLex v v'"
        by (simp split: if_splits)
      have "ciState \<lparr>lexer = v, currentToken = tk\<rparr> \<lparr>lexer = v', currentToken = tk'\<rparr>"
      proof (cases "tok_type tk = TEnd")
        case True
        with r nextToken_End [OF n1] nextToken_End [OF n2] show ?thesis
          by (simp add: ciState_def)
      next
        case False
        with r show ?thesis by (simp add: ciState_def)
      qed
      with True tq n1 n2 show ?thesis by (simp add: consume_def)
    qed
  qed
qed

lemma simRes_Inl [simp]: "simRes R (Inl e) (Inl e') = (normError e = normError e')"
  by (simp add: simRes_def)

lemma simRes_Inr [simp]: "simRes R (Inr (n, p)) (Inr (n', q)) = (R n n' \<and> ciState p q)"
  by (simp add: simRes_def)

lemma simRes_bind:
  assumes "simRes R x y"
    and "\<And>n p n' q. x = Inr (n, p) \<Longrightarrow> y = Inr (n', q) \<Longrightarrow> R n n' \<Longrightarrow> ciState p q
      \<Longrightarrow> simRes S (k n p) (k' n' q)"
  shows "simRes S (case x of Inl e \<Rightarrow> Inl e | Inr (n, p) \<Rightarrow> k n p)
                  (case y of Inl e \<Rightarrow> Inl e | Inr (n, p) \<Rightarrow> k' n p)"
proof (cases x)
  case (Inl e)
  with assms(1) show ?thesis by (cases y) (simp_all add: simRes_def)
next
  case (Inr a)
  then obtain n p where x: "x = Inr (n, p)" by (cases a) simp
  with assms(1) obtain n' q where y: "y = Inr (n', q)" and r: "R n n'" "ciState p q"
    by (cases y) (auto simp: simRes_def)
  from assms(2) [OF x y r] x y show ?thesis by simp
qed

lemma consume_bind:
  assumes "ciState p q"
    and "\<And>p' q'. consume ty p = Inr p' \<Longrightarrow> consume ty q = Inr q' \<Longrightarrow> ciState p' q'
      \<Longrightarrow> simRes S (k p') (k' q')"
  shows "simRes S (case consume ty p of Inl e \<Rightarrow> Inl e | Inr p' \<Rightarrow> k p')
                  (case consume ty q of Inl e \<Rightarrow> Inl e | Inr q' \<Rightarrow> k' q')"
  using consume_sim [OF assms(1), of ty] assms(2) by auto

lemma ciState_lower:
  "ciState p q \<Longrightarrow>
   to_lower (tok_text (currentToken p)) = to_lower (tok_text (currentToken q))"
  by (auto simp: ciState_def ciTok_def)

lemma ciState_text:
  assumes "ciState p q" and "tok_type (currentToken p) \<notin> {TAnd, TOr, TNot}"
    and "tok_type (currentToken p) = TIdentifier \<longrightarrow> \<not> nextIs TLParen (lexer p)"
  shows "tok_text (currentToken p) = tok_text (currentToken q)"
  using assms by (auto simp: ciState_def ciTok_def)

lemma parse_sim:
  shows "\<And>q. ciState p1 q \<Longrightarrow> simRes eqNode (parseExpression p1) (parseExpression q)"
    and "\<And>q. ciState p2 q \<Longrightarrow> simRes eqNode (parseOr p2) (parseOr q)"
    and "\<And>q node'. ciState p3 q \<Longrightarrow> eqNode node3 node' \<Longrightarrow>
           simRes eqNode (orLoop node3 p3) (orLoop node' q)"
    and "\<And>q. ciState p4 q \<Longrightarrow> simRes eqNode (parseAnd p4) (parseAnd q)"
    and "\<And>q node'. ciState p5 q \<Longrightarrow> eqNode node5 node' \<Longrightarrow>
           simRes eqNode (andLoop node5 p5) (andLoop node' q)"
    and "\<And>q. ciState p6 q \<Longrightarrow> simRes eqNode (parseNot p6) (parseNot q)"
    and "\<And>q. ciState p7 q \<Longrightarrow> simRes eqNode (parsePrimary p7) (parsePrimary q)"
    and "\<And>q args'. ciState p8 q \<Longrightarrow> eqNodes args8 args' \<Longrightarrow>
           simRes eqNodes (argsLoop args8 p8) (argsLoop args' q)"
proof (induct p1 and p2 and node3 p3 and p4 and node5 p5 and p6 and p7 and args8 p8
    rule: parseExpression_parseOr_orLoop_parseAnd_andLoop_parseNot_parsePrimary_argsLoop.induct)
  case (1 p)
  then show ?case by (simp add: parseExpression.simps)
next
  case (2 p)
  show ?case
    unfolding parseOr.simps [of p] parseOr.simps [of q]
  proof (rule simRes_bind [OF "2.hyps"(1) [OF "2.prems"]])
    fix n p' n' q'
    assume "parseAnd p = Inr (n, p')" "eqNode n n'" "ciState p' q'"
    then show "simRes eqNode (orLoop n p') (orLoop n' q')"
      using "2.hyps"(2) by simp
  qed
next
  case (3 node p)
  note ty = ciState_type [OF "3.prems"(1)]
  show ?case
  proof (cases "tok_type (currentToken p) = TOr")
    case True
    have "simRes eqNode
        (case consume TOr p of Inl e \<Rightarrow> Inl e
         | Inr p1 \<Rightarrow> (case parseAnd p1 of Inl e \<Rightarrow> Inl e
            | Inr (right, p2) \<Rightarrow> orLoop (SreLogicalNode OpOr node (Some right)) p2))
        (case consume TOr q of Inl e \<Rightarrow> Inl e
         | Inr p1 \<Rightarrow> (case parseAnd p1 of Inl e \<Rightarrow> Inl e
            | Inr (right, p2) \<Rightarrow> orLoop (SreLogicalNode OpOr node' (Some right)) p2))"
    proof (rule consume_bind [OF "3.prems"(1)])
      fix p' q'
      assume c: "consume TOr p = Inr p'" and s: "ciState p' q'"
      show "simRes eqNode
          (case parseAnd p' of Inl e \<Rightarrow> Inl e
           | Inr (right, p2) \<Rightarrow> orLoop (SreLogicalNode OpOr node (Some right)) p2)
          (case parseAnd q' of Inl e \<Rightarrow> Inl e
           | Inr (right, p2) \<Rightarrow> orLoop (SreLogicalNode OpOr node' (Some right)) p2)"
      proof (rule simRes_bind [OF "3.hyps"(1) [OF True c s]])
        fix n p2 n' q2
        assume a: "parseAnd p' = Inr (n, p2)" and e: "eqNode n n'" and s2: "ciState p2 q2"
        from e "3.prems"(2)
        have "eqNode (SreLogicalNode OpOr node (Some n)) (SreLogicalNode OpOr node' (Some n'))"
          by (simp add: eqNode_def)
        from "3.hyps"(2) [OF True c a refl s2 this]
        show "simRes eqNode (orLoop (SreLogicalNode OpOr node (Some n)) p2)
            (orLoop (SreLogicalNode OpOr node' (Some n')) q2)" .
      qed
    qed
    with True ty show ?thesis
      by (simp add: orLoop.simps [of node p] orLoop.simps [of node' q])
  next
    case False
    with ty "3.prems" show ?thesis
      by (simp add: orLoop.simps [of node p] orLoop.simps [of node' q])
  qed
next
  case (4 p)
  show ?case
    unfolding parseAnd.simps [of p] parseAnd.simps [of q]
  proof (rule simRes_bind [OF "4.hyps"(1) [OF "4.prems"]])
    fix n p' n' q'
    assume "parseNot p = Inr (n, p')" "eqNode n n'" "ciState p' q'"
    then show "simRes eqNode (andLoop n p') (andLoop n' q')"
      using "4.hyps"(2) by simp
  qed
next
  case (5 node p)
  note ty = ciState_type [OF "5.prems"(1)]
  show ?case
  proof (cases "tok_type (currentToken p) = TAnd")
    case True
    have "simRes eqNode
        (case consume TAnd p of Inl e \<Rightarrow> Inl e
         | Inr p1 \<Rightarrow> (case parseNot p1 of Inl e \<Rightarrow> Inl e
            | Inr (right, p2) \<Rightarrow> andLoop (SreLogicalNode OpAnd node (Some right)) p2))
        (case consume TAnd q of Inl e \<Rightarrow> Inl e
         | Inr p1 \<Rightarrow> (case parseNot p1 of Inl e \<Rightarrow> Inl e
            | Inr (right, p2) \<Rightarrow> andLoop (SreLogicalNode OpAnd node' (Some right)) p2))"
    proof (rule consume_bind [OF "5.prems"(1)])
      fix p' q'
      assume c: "consume TAnd p = Inr p'" and s: "ciState p' q'"
      show "simRes eqNode
          (case parseNot p' of Inl e \<Rightarrow> Inl e
           | Inr (right, p2) \<Rightarrow> andLoop (SreLogicalNode OpAnd node (Some right)) p2)
          (case parseNot q' of Inl e \<Rightarrow> Inl e
           | Inr (right, p2) \<Rightarrow> andLoop (SreLogicalNode OpAnd node' (Some right)) p2)"
      proof (rule simRes_bind [OF "5.hyps"(1) [OF True c s]])
        fix n p2 n' q2
        assume a: "parseNot p' = Inr (n, p2)" and e: "eqNode n n'" and s2: "ciState p2 q2"
        from e "5.prems"(2)
        have "eqNode (SreLogicalNode OpAnd node (Some n)) (SreLogicalNode OpAnd node' (Some n'))"
          by (simp add: eqNode_def)
        from "5.hyps"(2) [OF True c a refl s2 this]
        show "simRes eqNode (andLoop (SreLogicalNode OpAnd node (Some n)) p2)
            (andLoop (SreLogicalNode OpAnd node' (Some n')) q2)" .
      qed
    qed
    with True ty show ?thesis
      by (simp add: andLoop.simps [of node p] andLoop.simps [of node' q])
  next
    case False
    with ty "5.prems" show ?thesis
      by (simp add: andLoop.simps [of node p] andLoop.simps [of node' q])
  qed
next
  case (6 p)
  note ty = ciState_type [OF "6.prems"]
  show ?case
  proof (cases "tok_type (currentToken p) = TNot")
    case True
    have "simRes eqNode
        (case consume TNot p of Inl e \<Rightarrow> Inl e
         | Inr p1 \<Rightarrow> (case parsePrimary p1 of Inl e \<Rightarrow> Inl e
            | Inr (operand, p2) \<Rightarrow> Inr (SreLogicalNode OpNot operand None, p2)))
        (case consume TNot q of Inl e \<Rightarrow> Inl e
         | Inr p1 \<Rightarrow> (case parsePrimary p1 of Inl e \<Rightarrow> Inl e
            | Inr (operand, p2) \<Rightarrow> Inr (SreLogicalNode OpNot operand None, p2)))"
    proof (rule consume_bind [OF "6.prems"])
      fix p' q'
      assume c: "consume TNot p = Inr p'" and s: "ciState p' q'"
      show "simRes eqNode
          (case parsePrimary p' of Inl e \<Rightarrow> Inl e
           | Inr (operand, p2) \<Rightarrow> Inr (SreLogicalNode OpNot operand None, p2))
          (case parsePrimary q' of Inl e \<Rightarrow> Inl e
           | Inr (operand, p2) \<Rightarrow> Inr (SreLogicalNode OpNot operand None, p2))"
        by (rule simRes_bind [OF "6.hyps"(1) [OF True c s]]) (simp add: eqNode_def)
    qed
    with True ty show ?thesis
      by (simp add: parseNot.simps [of p] parseNot.simps [of q])
  next
    case False
    with ty "6.hyps"(2) [OF False "6.prems"] show ?thesis
      by (simp add: parseNot.simps [of p] parseNot.simps [of q])
  qed
next
  case (7 p)
  note ty = ciState_type [OF "7.prems"]
  note lo = ciState_lower [OF "7.prems"]
  consider (paren) "tok_type (currentToken p) = TLParen"
    | (ident) "tok_type (currentToken p) = TIdentifier"
    | (lit) "tok_type (currentToken p) = TStringLiteral"
    | (other) "tok_type (currentToken p) \<noteq> TLParen" "tok_type (currentToken p) \<noteq> TIdentifier"
        "tok_type (currentToken p) \<noteq> TStringLiteral"
    by blast
  then show ?case
  proof cases
    case paren
    have "simRes eqNode
        (case consume TLParen p of Inl e \<Rightarrow> Inl e
         | Inr p1 \<Rightarrow> (case parseExpression p1 of Inl e \<Rightarrow> Inl e
            | Inr (node, p2) \<Rightarrow> (case consume TRParen p2 of Inl e \<Rightarrow> Inl e
               | Inr p3 \<Rightarrow> Inr (node, p3))))
        (case consume TLParen q of Inl e \<Rightarrow> Inl e
         | Inr p1 \<Rightarrow> (case parseExpression p1 of Inl e \<Rightarrow> Inl e
            | Inr (node, p2) \<Rightarrow> (case consume TRParen p2 of Inl e \<Rightarrow> Inl e
               | Inr p3 \<Rightarrow> Inr (node, p3))))"
    proof (rule consume_bind [OF "7.prems"])
      fix p' q'
      assume c: "consume TLParen p = Inr p'" and s: "ciState p' q'"
      show "simRes eqNode
          (case parseExpression p' of Inl e \<Rightarrow> Inl e
           | Inr (node, p2) \<Rightarrow> (case consume TRParen p2 of Inl e \<Rightarrow> Inl e
              | Inr p3 \<Rightarrow> Inr (node, p3)))
          (case parseExpression q' of Inl e \<Rightarrow> Inl e
           | Inr (node, p2) \<Rightarrow> (case consume TRParen p2 of Inl e \<Rightarrow> Inl e
              | Inr p3 \<Rightarrow> Inr (node, p3)))"
      proof (rule simRes_bind [OF "7.hyps"(1) [OF paren c s]])
        fix n p2 n' q2
        assume e: "eqNode n n'" and s2: "ciState p2 q2"
        show "simRes eqNode
            (case consume TRParen p2 of Inl e \<Rightarrow> Inl e | Inr p3 \<Rightarrow> Inr (n, p3))
            (case consume TRParen q2 of Inl e \<Rightarrow> Inl e | Inr p3 \<Rightarrow> Inr (n', p3))"
          by (rule consume_bind [OF s2]) (simp add: e)
      qed
    qed
    with paren ty show ?thesis
      by (simp add: parsePrimary.simps [of p] parsePrimary.simps [of q])
  next
    case ident
    let ?name = "tok_text (currentToken p)"
    let ?name' = "tok_text (currentToken q)"
    let ?call = "\<lambda>name p1.
        (case consume TLParen p1 of Inl e \<Rightarrow> Inl e
         | Inr p2 \<Rightarrow>
             if tok_type (currentToken p2) \<noteq> TRParen then
               (case parseExpression p2 of Inl e \<Rightarrow> Inl e
                | Inr (arg, p3) \<Rightarrow>
                    (case argsLoop [arg] p3 of Inl e \<Rightarrow> Inl e
                     | Inr (args, p4) \<Rightarrow>
                         (case consume TRParen p4 of Inl e \<Rightarrow> Inl e
                          | Inr p5 \<Rightarrow> Inr (SreFunctionNode name args, p5))))
             else
               (case consume TRParen p2 of Inl e \<Rightarrow> Inl e
                | Inr p5 \<Rightarrow> Inr (SreFunctionNode name [], p5)))"
    let ?rest = "\<lambda>name p1.
        if tok_type (currentToken p1) = TLParen then ?call name p1
        else (let isVar = (CHR ''#'' \<in> set name); varName = stripVarName name
              in Inr (SreValueNode varName isVar, p1))"
    have "simRes eqNode
        (case consume TIdentifier p of Inl e \<Rightarrow> Inl e | Inr p1 \<Rightarrow> ?rest ?name p1)
        (case consume TIdentifier q of Inl e \<Rightarrow> Inl e | Inr p1 \<Rightarrow> ?rest ?name' p1)"
    proof (rule consume_bind [OF "7.prems"])
      fix p1 q1
      assume c: "consume TIdentifier p = Inr p1" and s: "ciState p1 q1"
      note ty1 = ciState_type [OF s]
      show "simRes eqNode (?rest ?name p1) (?rest ?name' q1)"
      proof (cases "tok_type (currentToken p1) = TLParen")
        case lpar: True
        have "simRes eqNode (?call ?name p1) (?call ?name' q1)"
        proof (rule consume_bind [OF s])
          fix p2 q2
          assume c2: "consume TLParen p1 = Inr p2" and s2: "ciState p2 q2"
          note ty2 = ciState_type [OF s2]
          show "simRes eqNode
              (if tok_type (currentToken p2) \<noteq> TRParen then
                 (case parseExpression p2 of Inl e \<Rightarrow> Inl e
                  | Inr (arg, p3) \<Rightarrow>
                      (case argsLoop [arg] p3 of Inl e \<Rightarrow> Inl e
                       | Inr (args, p4) \<Rightarrow>
                           (case consume TRParen p4 of Inl e \<Rightarrow> Inl e
                            | Inr p5 \<Rightarrow> Inr (SreFunctionNode ?name args, p5))))
               else
                 (case consume TRParen p2 of Inl e \<Rightarrow> Inl e
                  | Inr p5 \<Rightarrow> Inr (SreFunctionNode ?name [], p5)))
              (if tok_type (currentToken q2) \<noteq> TRParen then
                 (case parseExpression q2 of Inl e \<Rightarrow> Inl e
                  | Inr (arg, p3) \<Rightarrow>
                      (case argsLoop [arg] p3 of Inl e \<Rightarrow> Inl e
                       | Inr (args, p4) \<Rightarrow>
                           (case consume TRParen p4 of Inl e \<Rightarrow> Inl e
                            | Inr p5 \<Rightarrow> Inr (SreFunctionNode ?name' args, p5))))
               else
                 (case consume TRParen q2 of Inl e \<Rightarrow> Inl e
                  | Inr p5 \<Rightarrow> Inr (SreFunctionNode ?name' [], p5)))"
          proof (cases "tok_type (currentToken p2) = TRParen")
            case True
            have "simRes eqNode
                (case consume TRParen p2 of Inl e \<Rightarrow> Inl e
                 | Inr p5 \<Rightarrow> Inr (SreFunctionNode ?name [], p5))
                (case consume TRParen q2 of Inl e \<Rightarrow> Inl e
                 | Inr p5 \<Rightarrow> Inr (SreFunctionNode ?name' [], p5))"
              by (rule consume_bind [OF s2]) (simp add: eqNode_def lo)
            with True ty2 show ?thesis by simp
          next
            case False
            have "simRes eqNode
                (case parseExpression p2 of Inl e \<Rightarrow> Inl e
                  | Inr (arg, p3) \<Rightarrow>
                      (case argsLoop [arg] p3 of Inl e \<Rightarrow> Inl e
                       | Inr (args, p4) \<Rightarrow>
                           (case consume TRParen p4 of Inl e \<Rightarrow> Inl e
                            | Inr p5 \<Rightarrow> Inr (SreFunctionNode ?name args, p5))))
                (case parseExpression q2 of Inl e \<Rightarrow> Inl e
                  | Inr (arg, p3) \<Rightarrow>
                      (case argsLoop [arg] p3 of Inl e \<Rightarrow> Inl e
                       | Inr (args, p4) \<Rightarrow>
                           (case consume TRParen p4 of Inl e \<Rightarrow> Inl e
                            | Inr p5 \<Rightarrow> Inr (SreFunctionNode ?name' args, p5))))"
            proof (rule simRes_bind
                [OF "7.hyps"(2) [OF _ ident refl c lpar c2 False s2]])
              show "tok_type (currentToken p) \<noteq> TLParen" using ident by simp
            next
              fix arg p3 arg' q3
              assume a: "parseExpression p2 = Inr (arg, p3)" and e: "eqNode arg arg'"
                and s3: "ciState p3 q3"
              have e1: "eqNodes [arg] [arg']" using e by (simp add: eqNode_def eqNodes_def)
              have np: "tok_type (currentToken p) \<noteq> TLParen" using ident by simp
              show "simRes eqNode
                  (case argsLoop [arg] p3 of Inl e \<Rightarrow> Inl e
                   | Inr (args, p4) \<Rightarrow>
                       (case consume TRParen p4 of Inl e \<Rightarrow> Inl e
                        | Inr p5 \<Rightarrow> Inr (SreFunctionNode ?name args, p5)))
                  (case argsLoop [arg'] q3 of Inl e \<Rightarrow> Inl e
                   | Inr (args, p4) \<Rightarrow>
                       (case consume TRParen p4 of Inl e \<Rightarrow> Inl e
                        | Inr p5 \<Rightarrow> Inr (SreFunctionNode ?name' args, p5)))"
              proof (rule simRes_bind
                  [OF "7.hyps"(3) [OF np ident refl c lpar c2 False a refl s3 e1]])
                fix as p4 as' q4
                assume ea: "eqNodes as as'" and s4: "ciState p4 q4"
                show "simRes eqNode
                    (case consume TRParen p4 of Inl e \<Rightarrow> Inl e
                     | Inr p5 \<Rightarrow> Inr (SreFunctionNode ?name as, p5))
                    (case consume TRParen q4 of Inl e \<Rightarrow> Inl e
                     | Inr p5 \<Rightarrow> Inr (SreFunctionNode ?name' as', p5))"
                  using ea by (intro consume_bind [OF s4]) (simp add: eqNode_def eqNodes_def lo)
              qed
            qed
            with False ty2 show ?thesis by simp
          qed
        qed
        with lpar ty1 show ?thesis by simp
      next
        case False
        from c ident have "nextToken (lexer p) = Inr (currentToken p1, lexer p1)"
          by (auto simp: consume_def split: sum.splits)
        with False have "\<not> nextIs TLParen (lexer p)" by (simp add: nextIs_def)
        with ciState_text [OF "7.prems"] ident have "?name = ?name'" by simp
        with False ty1 s show ?thesis by (simp add: eqNode_def Let_def)
      qed
    qed
    with ident ty show ?thesis
      by (simp add: parsePrimary.simps [of p] parsePrimary.simps [of q] Let_def)
  next
    case lit
    with ciState_text [OF "7.prems"] have tx: "tok_text (currentToken p) = tok_text (currentToken q)"
      by simp
    have "simRes eqNode
        (case consume TStringLiteral p of Inl e \<Rightarrow> Inl e
         | Inr p1 \<Rightarrow> Inr (SreValueNode (tok_text (currentToken p)) False, p1))
        (case consume TStringLiteral q of Inl e \<Rightarrow> Inl e
         | Inr p1 \<Rightarrow> Inr (SreValueNode (tok_text (currentToken q)) False, p1))"
      by (rule consume_bind [OF "7.prems"]) (simp add: eqNode_def tx)
    with lit ty show ?thesis
      by (simp add: parsePrimary.simps [of p] parsePrimary.simps [of q] Let_def)
  next
    case other
    with ty lo show ?thesis
      by (simp add: parsePrimary.simps [of p] parsePrimary.simps [of q])
  qed
next
  case (8 args p)
  note ty = ciState_type [OF "8.prems"(1)]
  show ?case
  proof (cases "tok_type (currentToken p) = TComma")
    case True
    have "simRes eqNodes
        (case consume TComma p of Inl e \<Rightarrow> Inl e
         | Inr p1 \<Rightarrow> (case parseExpression p1 of Inl e \<Rightarrow> Inl e
            | Inr (arg, p2) \<Rightarrow> argsLoop (args @ [arg]) p2))
        (case consume TComma q of Inl e \<Rightarrow> Inl e
         | Inr p1 \<Rightarrow> (case parseExpression p1 of Inl e \<Rightarrow> Inl e
            | Inr (arg, p2) \<Rightarrow> argsLoop (args' @ [arg]) p2))"
    proof (rule consume_bind [OF "8.prems"(1)])
      fix p' q'
      assume c: "consume TComma p = Inr p'" and s: "ciState p' q'"
      show "simRes eqNodes
          (case parseExpression p' of Inl e \<Rightarrow> Inl e
           | Inr (arg, p2) \<Rightarrow> argsLoop (args @ [arg]) p2)
          (case parseExpression q' of Inl e \<Rightarrow> Inl e
           | Inr (arg, p2) \<Rightarrow> argsLoop (args' @ [arg]) p2)"
      proof (rule simRes_bind [OF "8.hyps"(1) [OF True c s]])
        fix n p2 n' q2
        assume a: "parseExpression p' = Inr (n, p2)" and e: "eqNode n n'"
          and s2: "ciState p2 q2"
        from e "8.prems"(2) have "eqNodes (args @ [n]) (args' @ [n'])"
          by (simp add: eqNode_def eqNodes_def)
        from "8.hyps"(2) [OF True c a refl s2 this]
        show "simRes eqNodes (argsLoop (args @ [n]) p2) (argsLoop (args' @ [n']) q2)" .
      qed
    qed
    with True ty show ?thesis
      by (simp add: argsLoop.simps [of args p] argsLoop.simps [of args' q])
  next
    case False
    with ty "8.prems" show ?thesis
      by (simp add: argsLoop.simps [of args p] argsLoop.simps [of args' q])
  qed
qed

lemma evalString_norm:
  "normNode n = normNode n' \<Longrightarrow> evalString ctx fns n = evalString ctx fns n'"
  by (cases n; cases n') simp_all

lemma evalArgs_norm:
  "map normNode args = map normNode args' \<Longrightarrow>
   evalArgs ctx fns args acc = evalArgs ctx fns args' acc"
proof (induction args arbitrary: args' acc)
  case Nil
  then show ?case by simp
next
  case (Cons a args)
  then obtain a' as' where "args' = a' # as'" "normNode a = normNode a'"
    "map normNode args = map normNode as'"
    by (cases args') auto
  with Cons.IH [of as'] evalString_norm [of a a' ctx fns] show ?case
    by (simp split: sum.splits)
qed

lemma evalBool_norm:
  "normNode n = normNode n' \<Longrightarrow>
   normResult (evalBool ctx fns n) = normResult (evalBool ctx fns n')"
proof (induction n arbitrary: n')
  case (SreLogicalNode op l r)
  then obtain l' r' where n': "n' = SreLogicalNode op l' r'"
    and l: "normNode l = normNode l'" and r: "map_option normNode r = map_option normNode r'"
    by (cases n') auto
  from SreLogicalNode.IH(1) [OF l]
  have el: "normResult (evalBool ctx fns l) = normResult (evalBool ctx fns l')" .
  have er: "normResult (case r of None \<Rightarrow> Inl NullChild | Some x \<Rightarrow> evalBool ctx fns x)
      = normResult (case r' of None \<Rightarrow> Inl NullChild | Some x \<Rightarrow> evalBool ctx fns x)"
  proof (cases r)
    case None
    with r show ?thesis by simp
  next
    case (Some x)
    with r obtain x' where "r' = Some x'" "normNode x = normNode x'" by (cases r') auto
    with Some SreLogicalNode.IH(2) [of x x'] show ?thesis by simp
  qed
  show ?case
  proof (cases "evalBool ctx fns l")
    case (Inl e)
    with el obtain e' where "evalBool ctx fns l' = Inl e'" "normError e = normError e'"
      by (cases "evalBool ctx fns l'") auto
    with Inl n' show ?thesis by (cases op) simp_all
  next
    case (Inr lv)
    with el have "evalBool ctx fns l' = Inr lv"
      by (cases "evalBool ctx fns l'") auto
    with Inr n' er show ?thesis by (cases op) simp_all
  qed
next
  case (SreValueNode val isVariable)
  then have "n' = SreValueNode val isVariable" by (cases n') auto
  then show ?case by simp
next
  case (SreFunctionNode name args)
  then obtain name' args' where n': "n' = SreFunctionNode name' args'"
    and nm: "to_lower name = to_lower name'" and ar: "map normNode args = map normNode args'"
    by (cases n') auto
  from evalArgs_norm [OF ar] have "evalArgs ctx fns args [] = evalArgs ctx fns args' []" .
  with n' nm show ?case
    by (simp split: sum.splits option.splits)
qed

lemma SreParser_new_sim:
  assumes "ciLex s s'"
  shows "(\<exists>e. SreParser_new s = Inl e \<and> SreParser_new s' = Inl e)
    \<or> (\<exists>p q. SreParser_new s = Inr p \<and> SreParser_new s' = Inr q \<and> ciState p q)"
proof -
  let ?tk = "\<lparr>tok_type = TEnd, tok_text = []\<rparr>"
  have "ciState \<lparr>lexer = s, currentToken = ?tk\<rparr> \<lparr>lexer = s', currentToken = ?tk\<rparr>"
    using assms by (simp add: ciState_def ciTok_def)
  from consume_sim [OF this, of TEnd] show ?thesis
    by (simp add: consume_def SreParser_new_def)
qed

lemma to_lower_idem: "to_lower (to_lower s) = to_lower s"
  by (induction s) (auto simp: to_lower_def tolower_def isupper_def)

text \<open>Changing the casing of one keyword or called name of an input.\<close>

lemma tolower_upper:
  assumes "isupper c"
  shows "of_char (tolower c) = (of_char c :: nat) + 32"
proof -
  from assms have "(of_char c :: nat) + 32 < 256" by (simp add: isupper_def)
  with assms show ?thesis by (simp add: tolower_def)
qed

lemma tolower_classes:
  assumes "tolower c = tolower c'"
  shows "isIdentChar c = isIdentChar c' \<and> isIdentStart c = isIdentStart c'"
proof (cases "isupper c")
  case u: True
  show ?thesis
  proof (cases "isupper c'")
    case True
    from tolower_upper [OF u] tolower_upper [OF True] assms
    have "(of_char c :: nat) + 32 = of_char c' + 32" by (simp only:)
    then have "(of_char c :: nat) = of_char c'" by (simp only: add_right_cancel)
    then have "c = c'" by (simp only: of_char_eq_iff)
    then show ?thesis by (simp only:)
  next
    case False
    with assms have "c' = tolower c" by (simp add: tolower_def)
    with u tolower_upper [OF u] have "islower c'" by (simp add: islower_def isupper_def)
    with u show ?thesis
      by (simp add: isIdentChar_def isIdentStart_def isalnum_def isalpha_def)
  qed
next
  case nu: False
  show ?thesis
  proof (cases "isupper c'")
    case True
    with nu assms have "c = tolower c'" by (simp add: tolower_def)
    with True tolower_upper [OF True] have "islower c" by (simp add: islower_def isupper_def)
    with True show ?thesis
      by (simp add: isIdentChar_def isIdentStart_def isalnum_def isalpha_def)
  next
    case False
    with nu assms show ?thesis by (simp add: tolower_def)
  qed
qed

lemma to_lower_all2:
  "to_lower w' = to_lower w \<Longrightarrow> list_all2 (\<lambda>c' c. tolower c' = tolower c) w' w"
proof (induction w arbitrary: w')
  case Nil
  then show ?case by (simp add: to_lower_def)
next
  case (Cons a w)
  from Cons.prems obtain a' v' where w': "w' = a' # v'"
    by (cases w') (simp_all add: to_lower_def)
  with Cons.prems have "tolower a' = tolower a" and "to_lower v' = to_lower w"
    by (simp_all add: to_lower_def)
  with Cons.IH [of v'] w' show ?case by simp
qed

lemma to_lower_run:
  assumes "to_lower w' = to_lower w" and "w \<noteq> []" and "isIdentStart (hd w)"
    and "\<forall>c \<in> set w. isIdentChar c"
  shows "w' \<noteq> [] \<and> isIdentStart (hd w') \<and> (\<forall>c \<in> set w'. isIdentChar c)"
proof -
  note a2 = to_lower_all2 [OF assms(1)]
  from a2 assms(2) have ne: "w' \<noteq> []" by auto
  from a2 ne assms(2) have "tolower (hd w') = tolower (hd w)"
    by (cases w'; cases w) simp_all
  with assms(3) tolower_classes [of "hd w'" "hd w"] have st: "isIdentStart (hd w')" by simp
  have "\<forall>c \<in> set w'. isIdentChar c"
  proof
    fix c assume "c \<in> set w'"
    then obtain i where i: "i < length w'" "w' ! i = c" by (auto simp: in_set_conv_nth)
    with a2 have "tolower c = tolower (w ! i)" and "i < length w"
      by (auto simp: list_all2_conv_all_nth)
    with assms(4) tolower_classes [of c "w ! i"] show "isIdentChar c" by simp
  qed
  with ne st show ?thesis by simp
qed

lemma nextToken_run:
  assumes "w \<noteq> []" and "isIdentStart (hd w)" and "\<forall>c \<in> set w. isIdentChar c"
    and "post = [] \<or> \<not> isIdentChar (hd post)"
  shows "nextToken (w @ post)
    = Inr (\<lparr>tok_type = keywordType (to_lower w), tok_text = w\<rparr>, post)"
proof -
  from assms(1) obtain c cs where w: "w = c # cs" by (cases w) auto
  with assms(2) have st: "isIdentStart c" by simp
  then have "\<not> isspace c"
    by (simp add: isIdentStart_isIdentChar isIdentChar_not_space)
  then have sk: "skipWhitespace (w @ post) = c # cs @ post"
    by (simp add: skipWhitespace_def w)
  have tw: "takeWhile isIdentChar (w @ post) = w"
    using assms(3,4) by (cases post) (simp_all add: takeWhile_append2)
  have dw: "dropWhile isIdentChar (w @ post) = post"
    using assms(3,4) by (cases post) (simp_all add: dropWhile_append2)
  from tw dw w have "takeWhile isIdentChar (c # cs @ post) = c # cs"
    and "dropWhile isIdentChar (c # cs @ post) = post" by simp_all
  with st show ?thesis
    unfolding nextToken_def sk
    by (simp add: Let_def keywordType_def w)
qed

lemma nextToken_append_Inl:
  assumes "nextToken u = Inl e"
  shows "nextToken (u @ x) = Inl e"
proof (cases "skipWhitespace u")
  case Nil
  with assms show ?thesis by (simp add: nextToken_def)
next
  case (Cons c cs)
  with assms show ?thesis
    unfolding nextToken_def skipWhitespace_append [OF Cons, of x] Cons
    by (simp add: Let_def split: if_splits)
qed

lemma ciLex_subst:
  assumes w: "w \<noteq> []" "isIdentStart (hd w)" "\<forall>c \<in> set w. isIdentChar c"
    and lo: "to_lower w' = to_lower w"
    and po: "post = [] \<or> \<not> isIdentChar (hd post)"
    and kw: "to_lower w \<in> {''and'', ''or'', ''not''} \<or> nextIs TLParen post"
  shows "even (quotes pre) \<Longrightarrow> pre = [] \<or> \<not> isIdentChar (last pre) \<Longrightarrow>
    ciLex (pre @ w @ post) (pre @ w' @ post)"
proof (induction pre rule: length_induct)
  case (1 pre)
  note w' = to_lower_run [OF lo w]
  note tw = nextToken_run [OF w po]
  have tw': "nextToken (w' @ post)
      = Inr (\<lparr>tok_type = keywordType (to_lower w), tok_text = w'\<rparr>, post)"
    using nextToken_run [of w' post] w' po lo by simp
  have ct: "ciTok \<lparr>tok_type = keywordType (to_lower w), tok_text = w\<rparr> post
      \<lparr>tok_type = keywordType (to_lower w), tok_text = w'\<rparr> post"
    using kw lo by (auto simp: ciTok_def keywordType_def)
  have ne: "keywordType (to_lower w) \<noteq> TEnd" by (simp add: keywordType_def)
  show ?case
  proof (cases "nextToken pre")
    case (Inl e)
    then show ?thesis
      by (simp add: ciLex.simps [of "pre @ w @ post" "pre @ w' @ post"] nextToken_append_Inl)
  next
    case (Inr a)
    then obtain tk v where nt: "nextToken pre = Inr (tk, v)" by (cases a) simp
    show ?thesis
    proof (cases "tok_type tk = TEnd")
      case True
      from nextToken_End [OF nt True] have "\<forall>c \<in> set pre. isspace c" by simp
      then have "nextToken (pre @ w @ post) = nextToken (w @ post)"
        and "nextToken (pre @ w' @ post) = nextToken (w' @ post)"
        by (simp_all add: nextToken_skip)
      with tw tw' ct ne show ?thesis
        by (simp add: ciLex.simps [of "pre @ w @ post" "pre @ w' @ post"])
    next
      case False
      have bd: "\<And>x. v = [] \<and> tok_type tk \<in> {TIdentifier, TAnd, TOr, TNot}
          \<longrightarrow> x = [] \<or> \<not> isIdentChar (hd x)"
      proof (intro impI, elim conjE)
        fix x assume "v = []" and "tok_type tk \<in> {TIdentifier, TAnd, TOr, TNot}"
        with nextToken_ident_last [OF nt] obtain u c where "pre = u @ [c]" "isIdentChar c"
          by auto
        with "1.prems"(2) show "x = [] \<or> \<not> isIdentChar (hd x)" by simp
      qed
      from nextToken_append [OF nt False "1.prems"(1) bd]
      have a1: "nextToken (pre @ w @ post) = Inr (tk, v @ w @ post)"
        and a2: "nextToken (pre @ w' @ post) = Inr (tk, v @ w' @ post)"
        and ev: "even (quotes v)" by auto
      from nextToken_length [OF nt] False have len: "length v < length pre" by simp
      have "v = [] \<or> \<not> isIdentChar (last v)"
      proof (cases "v = []")
        case True
        then show ?thesis by simp
      next
        case False
        from nextToken_suffix [OF nt] obtain u where "pre = u @ v" by (auto simp: suffix_def)
        with False "1.prems"(2) show ?thesis by simp
      qed
      with "1.IH" len ev have "ciLex (v @ w @ post) (v @ w' @ post)" by blast
      with a1 a2 False show ?thesis
        by (simp add: ciLex.simps [of "pre @ w @ post" "pre @ w' @ post"] ciTok_def)
    qed
  qed
qed

lemma char_eq_char_of_iff: "(c = char_of n) = (take_bit 8 n = (of_char c :: nat))"
  using char_of_eq_iff [of n c] by (metis (no_types))

text \<open>
  C5. Case-insensitivity. When two inputs are lexed to the same tokens up to the casing of
  the keywords \<open>and\<close>, \<open>or\<close>, \<open>not\<close> and of the identifiers that are followed by \<open>(\<close>,
  \<open>evaluate\<close> gives the same boolean on both, or fails on both with the same error up to
  the casing of the name in its message. A predicate registered under one casing of a
  name is the one found under every other casing, and a call gives the same result under
  every casing of its name. In particular, for an input \<open>pre @ w @ post\<close> in which \<open>w\<close> is a
  whole identifier run outside string literals (the quotes of \<open>pre\<close> are paired, no
  identifier character next to \<open>w\<close>) that is a keyword or is followed by \<open>(\<close>, replacing
  \<open>w\<close> by any \<open>w'\<close> with the same lower-case form leaves the result of \<open>evaluate\<close> the same.
\<close>

theorem case_insensitive_keywords_and_names:
  "(ciLex s s'
    \<longrightarrow> normResult (evaluate eng s ctx) = normResult (evaluate eng s' ctx))
   \<and> (to_lower name = to_lower name'
    \<longrightarrow> sre_functions (registerFunction name f eng) (to_lower name') = Some f
      \<and> normResult (evalBool ctx fns (SreFunctionNode name args))
        = normResult (evalBool ctx fns (SreFunctionNode name' args)))
   \<and> (w \<noteq> [] \<and> isIdentStart (hd w) \<and> (\<forall>c \<in> set w. isIdentChar c)
        \<and> to_lower w' = to_lower w
        \<and> (post = [] \<or> \<not> isIdentChar (hd post))
        \<and> (to_lower w \<in> {''and'', ''or'', ''not''} \<or> nextIs TLParen post)
        \<and> even (quotes pre) \<and> (pre = [] \<or> \<not> isIdentChar (last pre))
    \<longrightarrow> normResult (evaluate eng (pre @ w @ post) ctx)
        = normResult (evaluate eng (pre @ w' @ post) ctx))"
proof (intro conjI impI)
  have main: "normResult (evaluate eng s ctx) = normResult (evaluate eng s' ctx)"
    if "ciLex s s'" for s s'
    using SreParser_new_sim [OF that]
  proof (elim disjE exE conjE)
    fix e assume "SreParser_new s = Inl e" "SreParser_new s' = Inl e"
    then show ?thesis by (simp add: evaluate_def)
  next
    fix p q assume p: "SreParser_new s = Inr p" and q: "SreParser_new s' = Inr q"
      and st: "ciState p q"
    from parse_sim(1) [OF st] have sim: "simRes eqNode (parseExpression p) (parseExpression q)" .
    show ?thesis
    proof (cases "parseExpression p")
      case (Inl e)
      with sim obtain e' where "parseExpression q = Inl e'" "normError e = normError e'"
        by (cases "parseExpression q") (auto simp: simRes_def)
      with Inl p q show ?thesis by (simp add: evaluate_def)
    next
      case (Inr a)
      then obtain n p' where 1: "parseExpression p = Inr (n, p')" by (cases a) simp
      with sim obtain n' q' where 2: "parseExpression q = Inr (n', q')" and "eqNode n n'"
        by (cases "parseExpression q") (auto simp: simRes_def)
      then have "normNode n = normNode n'" by (simp add: eqNode_def)
      from evalBool_norm [OF this] 1 2 p q show ?thesis by (simp add: evaluate_def)
    qed
  qed
  show "normResult (evaluate eng s ctx) = normResult (evaluate eng s' ctx)" if "ciLex s s'"
    using that by (rule main)
  show "normResult (evaluate eng (pre @ w @ post) ctx)
        = normResult (evaluate eng (pre @ w' @ post) ctx)"
    if h: "w \<noteq> [] \<and> isIdentStart (hd w) \<and> (\<forall>c \<in> set w. isIdentChar c)
        \<and> to_lower w' = to_lower w
        \<and> (post = [] \<or> \<not> isIdentChar (hd post))
        \<and> (to_lower w \<in> {''and'', ''or'', ''not''} \<or> nextIs TLParen post)
        \<and> even (quotes pre) \<and> (pre = [] \<or> \<not> isIdentChar (last pre))"
  proof -
    from h have "ciLex (pre @ w @ post) (pre @ w' @ post)"
      by (intro ciLex_subst) simp_all
    then show ?thesis by (rule main)
  qed
next
  assume "to_lower name = to_lower name'"
  then show "sre_functions (registerFunction name f eng) (to_lower name') = Some f"
    by (simp add: registerFunction_def)
next
  assume "to_lower name = to_lower name'"
  then have "normNode (SreFunctionNode name args) = normNode (SreFunctionNode name' args)"
    by simp
  then show "normResult (evalBool ctx fns (SreFunctionNode name args))
        = normResult (evalBool ctx fns (SreFunctionNode name' args))"
    by (rule evalBool_norm)
qed

theorem case_insensitive_keywords_and_names_witness:
  "ciLex ''(Contains(#{a}, 'ell') OR x) AnD NOT containsANY(#{b}, 'xxx', '22') ''
      ''(contains(#{a}, 'ell') or x) and not containsany(#{b}, 'xxx', '22') ''
   \<and> normResult (evaluate SreRuleEngine_new
        ''(Contains(#{a}, 'ell') OR x) AnD NOT containsANY(#{b}, 'xxx', '22') ''
        (Map.empty(''a'' \<mapsto> ''hello'', ''b'' \<mapsto> ''hello, world'')))
     = normResult (evaluate SreRuleEngine_new
        ''(contains(#{a}, 'ell') or x) and not containsany(#{b}, 'xxx', '22') ''
        (Map.empty(''a'' \<mapsto> ''hello'', ''b'' \<mapsto> ''hello, world'')))
   \<and> sre_functions (registerFunction ''StartsWith'' contains_fn SreRuleEngine_new)
        (to_lower ''STARTSWITH'') = Some contains_fn
   \<and> normResult (evaluate SreRuleEngine_new (''not '' @ ''Contains'' @ ''('b', 'c') or d'')
        Map.empty)
     = normResult (evaluate SreRuleEngine_new (''not '' @ ''CONTAINS'' @ ''('b', 'c') or d'')
        Map.empty)"
proof (intro conjI)
  show h: "ciLex ''(Contains(#{a}, 'ell') OR x) AnD NOT containsANY(#{b}, 'xxx', '22') ''
      ''(contains(#{a}, 'ell') or x) and not containsany(#{b}, 'xxx', '22') ''"
    by (simp add: ciLex.simps ciTok_def nextIs_def lex_defs char_defs char_eq_char_of_iff)
  show "normResult (evaluate SreRuleEngine_new
        ''(Contains(#{a}, 'ell') OR x) AnD NOT containsANY(#{b}, 'xxx', '22') ''
        (Map.empty(''a'' \<mapsto> ''hello'', ''b'' \<mapsto> ''hello, world'')))
     = normResult (evaluate SreRuleEngine_new
        ''(contains(#{a}, 'ell') or x) and not containsany(#{b}, 'xxx', '22') ''
        (Map.empty(''a'' \<mapsto> ''hello'', ''b'' \<mapsto> ''hello, world'')))"
    by (rule case_insensitive_keywords_and_names [THEN conjunct1, THEN mp, OF h])
  have l: "to_lower ''StartsWith'' = to_lower ''STARTSWITH''"
    by (simp add: char_defs char_eq_char_of_iff)
  show "sre_functions (registerFunction ''StartsWith'' contains_fn SreRuleEngine_new)
        (to_lower ''STARTSWITH'') = Some contains_fn"
    by (rule case_insensitive_keywords_and_names
        [THEN conjunct2, THEN conjunct1, THEN mp, OF l, THEN conjunct1])
  have k: "''Contains'' \<noteq> [] \<and> isIdentStart (hd ''Contains'')
        \<and> (\<forall>c \<in> set ''Contains''. isIdentChar c)
        \<and> to_lower ''CONTAINS'' = to_lower ''Contains''
        \<and> (''('b', 'c') or d'' = [] \<or> \<not> isIdentChar (hd ''('b', 'c') or d''))
        \<and> (to_lower ''Contains'' \<in> {''and'', ''or'', ''not''}
            \<or> nextIs TLParen ''('b', 'c') or d'')
        \<and> even (quotes ''not '') \<and> (''not '' = [] \<or> \<not> isIdentChar (last ''not ''))"
    by (simp add: nextIs_def lex_defs char_defs char_eq_char_of_iff)
  show "normResult (evaluate SreRuleEngine_new (''not '' @ ''Contains'' @ ''('b', 'c') or d'')
        Map.empty)
     = normResult (evaluate SreRuleEngine_new (''not '' @ ''CONTAINS'' @ ''('b', 'c') or d'')
        Map.empty)"
    by (rule case_insensitive_keywords_and_names
        [THEN conjunct2, THEN conjunct2, THEN mp, OF k])
qed

end
